theory Spec2Isabelle
  imports Complex_Main "HOL-Library.Char_ord" "HOL-Library.List_Lexorder"
begin

section \<open>JavaScript values\<close>

text \<open>
  The table plugin handles rows, messages and configuration values of TypeScript type
  \<open>any\<close>. They are modelled as trees. Numbers are the integers (\<open>Date.now()\<close>, row
  counts, page sizes, identifiers); fractions, \<open>NaN\<close> and the infinities are outside the
  value domain. An object keeps its properties in insertion order, which is the order
  \<open>JSON.stringify\<close> and \<open>Object.keys\<close> see. A \<open>Date\<close> is an opaque platform object: it is
  modelled by its time value together with the two renderings the platform computes from
  it, \<open>toISOString()\<close> and \<open>toString()\<close>. Values are trees, so every object occurrence is
  a reference of its own and cyclic structures do not exist.
\<close>

datatype jsval =
    JUndefined
  | JNull
  | JBool bool
  | JNum int
  | JBigInt int
  | JStr string
  | JDate int string string
  | JArr "jsval list"
  | JObj "(string \<times> jsval) list"

type_synonym row = "(string \<times> jsval) list"

text \<open>
  Property access \<open>obj[key]\<close> on a plain object, over its own properties: \<open>undefined\<close>
  when the key is absent. The members every object inherits from \<open>Object.prototype\<close>
  (\<open>constructor\<close>, \<open>toString\<close>, ...) are functions and not part of the value domain; a key
  of that name that the object does not own reads as \<open>undefined\<close> here.
\<close>

definition get_prop :: "string \<Rightarrow> row \<Rightarrow> jsval" where
  "get_prop k r = (case map_of r k of None \<Rightarrow> JUndefined | Some v \<Rightarrow> v)"

subsection \<open>Decimal rendering of integers\<close>

text \<open>
  The digits of an integer. \<open>String(n)\<close> and \<open>JSON.stringify(n)\<close> print a number this
  way when it is a safe integer (magnitude below \<open>2^53\<close>), which identifiers, counts and
  clock readings are; beyond that the platform rounds to a double and, from \<open>10^21\<close>,
  prints an exponent, which is outside the model.
\<close>

definition digit_char :: "nat \<Rightarrow> char" where
  "digit_char d = char_of (48 + d)"

fun show_nat :: "nat \<Rightarrow> string" where
  "show_nat n = (if n < 10 then [digit_char n] else show_nat (n div 10) @ [digit_char (n mod 10)])"

declare show_nat.simps [simp del]

definition show_int :: "int \<Rightarrow> string" where
  "show_int i = (if i < 0 then CHR ''-'' # show_nat (nat (- i)) else show_nat (nat i))"

subsection \<open>\<open>String(v)\<close>\<close>

fun intercalate :: "'a list \<Rightarrow> 'a list list \<Rightarrow> 'a list" where
  "intercalate sep [] = []"
| "intercalate sep [x] = x"
| "intercalate sep (x # y # ys) = x @ sep @ intercalate sep (y # ys)"

text \<open>
  \<open>String(v)\<close>. An array renders as \<open>join(",")\<close> of its elements, where \<open>null\<close> and
  \<open>undefined\<close> elements render as the empty string; a plain object renders as
  \<open>[object Object]\<close>.
\<close>

fun js_to_string :: "jsval \<Rightarrow> string" where
  "js_to_string JUndefined = ''undefined''"
| "js_to_string JNull = ''null''"
| "js_to_string (JBool b) = (if b then ''true'' else ''false'')"
| "js_to_string (JNum i) = show_int i"
| "js_to_string (JBigInt i) = show_int i"
| "js_to_string (JStr s) = s"
| "js_to_string (JDate ms isoStr txt) = txt"
| "js_to_string (JArr xs) =
     intercalate '','' (map (\<lambda>x. if x = JUndefined \<or> x = JNull then [] else js_to_string x) xs)"
| "js_to_string (JObj ps) = ''[object Object]''"

section \<open>\<open>Map\<close>: insertion-ordered key/value store\<close>

text \<open>
  A JavaScript \<open>Map\<close> iterates in insertion order; \<open>set\<close> on a present key replaces the
  value in place, on an absent key appends; \<open>delete\<close> removes the entry.
\<close>

type_synonym ('k, 'v) jsmap = "('k \<times> 'v) list"

definition Map_get :: "'k \<Rightarrow> ('k, 'v) jsmap \<Rightarrow> 'v option" where
  "Map_get k m = map_of m k"

definition Map_has :: "'k \<Rightarrow> ('k, 'v) jsmap \<Rightarrow> bool" where
  "Map_has k m = (k \<in> set (map fst m))"

primrec Map_set :: "'k \<Rightarrow> 'v \<Rightarrow> ('k, 'v) jsmap \<Rightarrow> ('k, 'v) jsmap" where
  "Map_set k v [] = [(k, v)]"
| "Map_set k v (p # ps) = (if fst p = k then (k, v) # ps else p # Map_set k v ps)"

definition Map_delete :: "'k \<Rightarrow> ('k, 'v) jsmap \<Rightarrow> ('k, 'v) jsmap" where
  "Map_delete k m = filter (\<lambda>p. fst p \<noteq> k) m"

text \<open>\<open>new Map(entries)\<close> for an array of key/value pairs.\<close>

definition Map_of_entries :: "('k \<times> 'v) list \<Rightarrow> ('k, 'v) jsmap" where
  "Map_of_entries es = fold (\<lambda>(k, v). Map_set k v) es []"

section \<open>Selection store (TableChart.tsx)\<close>

text \<open>The row identifier \<open>String(row[bulk_action_id_column])\<close>.\<close>

definition row_id :: "string \<Rightarrow> row \<Rightarrow> string" where
  "row_id idcol r = js_to_string (get_prop idcol r)"

type_synonym selection = "(string, row) jsmap"

text \<open>
  \<open>handleBulkSelect(visibleData)\<close>, the state updater passed to \<open>setSelectedRows\<close>: from the
  previous selection to the new one.
\<close>

definition handleBulkSelect :: "string \<Rightarrow> row list \<Rightarrow> selection \<Rightarrow> selection" where
  "handleBulkSelect idcol visibleData prev =
     (let visibleIds = map (row_id idcol) visibleData;
          allVisibleSelected = (length visibleIds > 0 \<and> list_all (\<lambda>i. Map_has i prev) visibleIds)
      in if allVisibleSelected
         then fold Map_delete visibleIds prev
         else fold (\<lambda>r m. Map_set (row_id idcol r) r m) visibleData prev)"

text \<open>\<open>Array.prototype.indexOf\<close>: the first index of the element, \<open>-1\<close> when absent.\<close>

fun indexOf :: "'a list \<Rightarrow> 'a \<Rightarrow> int" where
  "indexOf [] x = -1"
| "indexOf (y # ys) x = (if y = x then 0 else (let i = indexOf ys x in if i < 0 then -1 else i + 1))"

text \<open>\<open>xs.slice(a, b)\<close> for \<open>0 \<le> a\<close>, \<open>0 \<le> b\<close>.\<close>

definition slice :: "nat \<Rightarrow> nat \<Rightarrow> 'a list \<Rightarrow> 'a list" where
  "slice a b xs = take (b - a) (drop a xs)"

text \<open>
  \<open>handleRowSelect(rowId, event)\<close>. The state is the selection together with the ref
  \<open>lastSelectedRow\<close>; \<open>shiftKey\<close> is \<open>event?.shiftKey\<close>. The guard
  \<open>event?.shiftKey && lastSelectedRow.current\<close> is JavaScript truthiness: it holds when
  the shift key is down and the ref holds a non-empty string, the anchor.
\<close>

definition shift_anchor :: "bool \<Rightarrow> string option \<Rightarrow> string option" where
  "shift_anchor shiftKey lastSelectedRow =
     (if shiftKey then (case lastSelectedRow of None \<Rightarrow> None | Some s \<Rightarrow> if s = [] then None else Some s)
      else None)"

definition handleRowSelect ::
  "string \<Rightarrow> row list \<Rightarrow> string \<Rightarrow> string \<Rightarrow> bool \<Rightarrow> selection \<times> string option
     \<Rightarrow> selection \<times> string option" where
  "handleRowSelect selection_mode data idcol rowId shiftKey st =
     (case st of (prev, lastSelectedRow) \<Rightarrow>
        (case find (\<lambda>r. row_id idcol r = rowId) data of
           None \<Rightarrow> (prev, lastSelectedRow)
         | Some rowData \<Rightarrow>
             if selection_mode = ''single'' then ([(rowId, rowData)], lastSelectedRow)
             else (case shift_anchor shiftKey lastSelectedRow of
               Some anchor \<Rightarrow>
                 (let visibleRows = data;
                      visibleIds = map (row_id idcol) visibleRows;
                      startIdx = indexOf visibleIds anchor;
                      endIdx = indexOf visibleIds rowId
                  in if startIdx > -1 \<and> endIdx > -1
                     then (fold (\<lambda>r m. Map_set (row_id idcol r) r m)
                             (slice (nat (min startIdx endIdx)) (nat (max startIdx endIdx + 1)) visibleRows)
                             prev,
                           lastSelectedRow)
                     else (prev, lastSelectedRow))
             | None \<Rightarrow>
                 ((if Map_has rowId prev then Map_delete rowId prev
                   else Map_set rowId rowData prev),
                  Some rowId))))"

section \<open>Pagination view (DataTable.tsx)\<close>

text \<open>
  The fields of \<open>serverPaginationData\<close> the pagination block reads; each may be absent.
  The object itself is read through \<open>?.\<close>, so it may be absent as well.
\<close>

record serverPaginationData =
  spd_pageSize :: "int option"
  spd_currentPage :: "int option"

text \<open>\<open>obj?.field\<close> followed by \<open>?? dflt\<close>.\<close>

definition opt_field :: "('r \<Rightarrow> 'a option) \<Rightarrow> 'r option \<Rightarrow> 'a option" where
  "opt_field f obj = (case obj of None \<Rightarrow> None | Some r \<Rightarrow> f r)"

definition nullish_or :: "'a option \<Rightarrow> 'a \<Rightarrow> 'a" where
  "nullish_or a dflt = (case a of None \<Rightarrow> dflt | Some x \<Rightarrow> x)"

text \<open>
  \<open>Math.ceil(a / b)\<close> on integers; \<open>None\<close> stands for a result that is not finite
  (\<open>b = 0\<close> gives an infinity or \<open>NaN\<close>). The value is the exact ceiling of the
  quotient. The platform divides in double precision first; for a safe integer \<open>a\<close>
  (magnitude below \<open>2^53\<close>, as a row count is) the rounded quotient has the same ceiling,
  for larger \<open>a\<close> it may differ by one.
\<close>

definition math_ceil_div :: "int \<Rightarrow> int \<Rightarrow> int option" where
  "math_ceil_div a b = (if b = 0 then None else Some (- ((- a) div b)))"

text \<open>\<open>Array.prototype.findIndex\<close>.\<close>

fun findIndex :: "('a \<Rightarrow> bool) \<Rightarrow> 'a list \<Rightarrow> int" where
  "findIndex P [] = -1"
| "findIndex P (y # ys) = (if P y then 0 else (let i = findIndex P ys in if i < 0 then -1 else i + 1))"

record pagination_view =
  resultPageCount :: int
  resultCurrentPageSize :: int
  resultCurrentPage :: int

text \<open>
  The block that computes what the pagination controls show. \<open>pageCount\<close>, \<open>pageSize\<close> and
  \<open>pageIndex\<close> are the table library's state; \<open>pageSizeOptions\<close> pairs each size with its
  label.
\<close>

definition pagination_result ::
  "bool \<Rightarrow> int \<Rightarrow> serverPaginationData option \<Rightarrow> int \<Rightarrow> (int \<times> string) list
     \<Rightarrow> int \<Rightarrow> int \<Rightarrow> int \<Rightarrow> pagination_view" where
  "pagination_result serverPagination rowCount serverPaginationData initialPageSize pageSizeOptions
       pageCount pageSize pageIndex =
     (if serverPagination then
        (let serverPageSize = nullish_or (opt_field spd_pageSize serverPaginationData) initialPageSize;
             pageCount' = (case math_ceil_div rowCount serverPageSize of None \<Rightarrow> 0 | Some n \<Rightarrow> n);
             foundPageSizeIndex = findIndex (\<lambda>opt. fst opt = serverPageSize) pageSizeOptions;
             currentPageSize =
               (if foundPageSizeIndex = -1
                then (case pageSizeOptions of [] \<Rightarrow> serverPageSize | _ # _ \<Rightarrow> fst (last pageSizeOptions))
                else serverPageSize)
         in \<lparr> resultPageCount = pageCount',
              resultCurrentPageSize = currentPageSize,
              resultCurrentPage = nullish_or (opt_field spd_currentPage serverPaginationData) 0 \<rparr>)
      else
        \<lparr> resultPageCount = pageCount,
          resultCurrentPageSize = (if initialPageSize = 0 then 0 else pageSize),
          resultCurrentPage = pageIndex \<rparr>)"

text \<open>
  The pagination bar is rendered when \<open>hasPagination && resultPageCount > 1\<close>, with
  \<open>hasPagination = initialPageSize > 0 && resultsSize > 0\<close>; under server pagination
  \<open>resultsSize\<close> is \<open>rowCount\<close>.
\<close>

definition renders_pagination :: "int \<Rightarrow> int \<Rightarrow> pagination_view \<Rightarrow> bool" where
  "renders_pagination initialPageSize resultsSize v =
     ((initialPageSize > 0 \<and> resultsSize > 0) \<and> resultPageCount v > 1)"

text \<open>
  The effect that keeps the table's page index in step with the server page: the page it
  asks the table to go to, if any.
\<close>

definition sync_page_index :: "bool \<Rightarrow> serverPaginationData option \<Rightarrow> int \<Rightarrow> int option" where
  "sync_page_index serverPagination serverPaginationData pageIndex =
     (if \<not> serverPagination then None
      else (let serverPage = nullish_or (opt_field spd_currentPage serverPaginationData) 0
            in if pageIndex \<noteq> serverPage then Some serverPage else None))"

section \<open>\<open>JSON.stringify\<close>\<close>

text \<open>
  The platform's serializer, as the plugin calls it: one argument, no replacer, no
  indentation. Strings are sequences of 8-bit code units here; text outside that range is
  outside the model.
\<close>

definition dquote :: char where "dquote = CHR 0x22"
definition bslash :: char where "bslash = CHR 0x5C"

definition hex_digit :: "nat \<Rightarrow> char" where
  "hex_digit d = (if d < 10 then char_of (48 + d) else char_of (87 + d))"

text \<open>
  One code unit inside a quoted string: the quote and the backslash are escaped, the control
  characters are written \<open>\b \t \n \f \r\<close> or as a four-digit \<open>\u\<close> escape, every other code
  unit stands for itself.
\<close>

definition json_escape :: "char \<Rightarrow> string" where
  "json_escape c =
     (let n = (of_char c :: nat) in
      if n = 8 then [bslash, CHR ''b'']
      else if n = 9 then [bslash, CHR ''t'']
      else if n = 10 then [bslash, CHR ''n'']
      else if n = 12 then [bslash, CHR ''f'']
      else if n = 13 then [bslash, CHR ''r'']
      else if c = dquote then [bslash, dquote]
      else if c = bslash then [bslash, bslash]
      else if n < 32 then [bslash, CHR ''u'', CHR ''0'', CHR ''0'', hex_digit (n div 16), hex_digit (n mod 16)]
      else [c])"

definition json_quote :: "string \<Rightarrow> string" where
  "json_quote s = dquote # concat (map json_escape s) @ [dquote]"

text \<open>
  The result of serializing one value: a text, \<open>undefined\<close> (the value is left out of an
  object and written \<open>null\<close> in an array), or a thrown \<open>TypeError\<close> (a \<open>BigInt\<close>).
\<close>

datatype ser = Throws | Undef | Text string

fun arr_items :: "ser list \<Rightarrow> string list option" where
  "arr_items [] = Some []"
| "arr_items (Throws # rest) = None"
| "arr_items (Undef # rest) = map_option (\<lambda>ss. ''null'' # ss) (arr_items rest)"
| "arr_items (Text s # rest) = map_option (\<lambda>ss. s # ss) (arr_items rest)"

fun obj_members :: "(string \<times> ser) list \<Rightarrow> string list option" where
  "obj_members [] = Some []"
| "obj_members ((k, Throws) # rest) = None"
| "obj_members ((k, Undef) # rest) = obj_members rest"
| "obj_members ((k, Text s) # rest) =
     map_option (\<lambda>ms. (json_quote k @ '':'' @ s) # ms) (obj_members rest)"

text \<open>
  \<open>SerializeJSONProperty\<close>. A \<open>Date\<close> is serialized through its \<open>toJSON\<close>, which is
  \<open>toISOString\<close>.
\<close>

fun SerializeJSONProperty :: "jsval \<Rightarrow> ser" where
  "SerializeJSONProperty JUndefined = Undef"
| "SerializeJSONProperty JNull = Text ''null''"
| "SerializeJSONProperty (JBool b) = Text (if b then ''true'' else ''false'')"
| "SerializeJSONProperty (JNum i) = Text (show_int i)"
| "SerializeJSONProperty (JBigInt i) = Throws"
| "SerializeJSONProperty (JStr s) = Text (json_quote s)"
| "SerializeJSONProperty (JDate ms isoStr txt) = Text (json_quote isoStr)"
| "SerializeJSONProperty (JArr xs) =
     (case arr_items (map SerializeJSONProperty xs) of
        None \<Rightarrow> Throws
      | Some ss \<Rightarrow> Text (''['' @ intercalate '','' ss @ '']''))"
| "SerializeJSONProperty (JObj ps) =
     (case obj_members (map (\<lambda>p. (fst p, SerializeJSONProperty (snd p))) ps) of
        None \<Rightarrow> Throws
      | Some ms \<Rightarrow> Text (''{'' @ intercalate '','' ms @ ''}''))"

text \<open>
  \<open>JSON.stringify\<close> applied to a plain object given by its properties, and to an array given
  by its elements: the text, or \<open>None\<close> when it throws. Neither call can return \<open>undefined\<close>.
\<close>

definition stringify_object :: "(string \<times> jsval) list \<Rightarrow> string option" where
  "stringify_object ps =
     map_option (\<lambda>ms. ''{'' @ intercalate '','' ms @ ''}'')
       (obj_members (map (\<lambda>p. (fst p, SerializeJSONProperty (snd p))) ps))"

definition stringify_array :: "jsval list \<Rightarrow> string option" where
  "stringify_array xs =
     map_option (\<lambda>ss. ''['' @ intercalate '','' ss @ '']'') (arr_items (map SerializeJSONProperty xs))"

section \<open>Event dedupe (TableChart.tsx)\<close>

text \<open>
  Reading a property of a message of type \<open>any\<close>. The four names read here are properties
  of plain objects only; on an array \<open>values\<close> is an inherited function, which the serializer
  leaves out exactly as it leaves out \<open>undefined\<close>.
\<close>

definition member :: "string \<Rightarrow> jsval \<Rightarrow> jsval" where
  "member k v = (case v of JObj ps \<Rightarrow> get_prop k ps | _ \<Rightarrow> JUndefined)"

text \<open>JavaScript falsiness, as \<open>msg || {}\<close> tests it.\<close>

definition falsy :: "jsval \<Rightarrow> bool" where
  "falsy v = (v = JUndefined \<or> v = JNull \<or> v = JBool False \<or> v = JNum 0 \<or> v = JBigInt 0 \<or> v = JStr [])"

text \<open>
  \<open>makeEventKey(msg)\<close>. \<open>clock\<close> is what \<open>Date.now()\<close> returns in the \<open>catch\<close> branch.
\<close>

definition makeEventKey :: "int \<Rightarrow> jsval \<Rightarrow> string" where
  "makeEventKey clock msg =
     (let m = (if falsy msg then JObj [] else msg);
          action = member ''action'' m;
          chartId = member ''chartId'' m;
          actionType = member ''actionType'' m;
          values = member ''values'' m
      in case stringify_object
                [(''action'', action), (''chartId'', chartId),
                 (''actionType'', actionType), (''values'', values)] of
           Some keyPayload \<Rightarrow> keyPayload
         | None \<Rightarrow> show_int clock)"

text \<open>
  The configuration. \<open>flag\<close> and \<open>ttl\<close> are the entries \<open>REMITA_EVENT_DEDUPE_ENABLED\<close> and
  \<open>REMITA_EVENT_DEDUPE_TTL_MS\<close> of \<open>window.featureFlags\<close> (\<open>undefined\<close> when absent);
  \<open>entry\<close> is the state of the platform's own feature-flag entry where it exposes one.
\<close>

definition getRemitaDedupeEnabled :: "jsval \<Rightarrow> bool option \<Rightarrow> bool" where
  "getRemitaDedupeEnabled flag entry =
     (case flag of JBool b \<Rightarrow> b
      | _ \<Rightarrow> (case entry of Some b \<Rightarrow> b | None \<Rightarrow> True))"

definition getRemitaDedupeTtlMs :: "jsval \<Rightarrow> int" where
  "getRemitaDedupeTtlMs ttl = (case ttl of JNum n \<Rightarrow> n | _ \<Rightarrow> 1000)"

definition DEDUPE_TTL_MS :: "jsval \<Rightarrow> bool option \<Rightarrow> jsval \<Rightarrow> int" where
  "DEDUPE_TTL_MS flag entry ttl = (if getRemitaDedupeEnabled flag entry then getRemitaDedupeTtlMs ttl else 0)"

text \<open>
  \<open>shouldSendMessage(msg)\<close>: the answer and the new content of \<open>recentEventsRef.current\<close>.
  \<open>clock\<close> is the reading \<open>makeEventKey\<close> may take, \<open>now\<close> the one taken here. \<open>get(key) || 0\<close>
  is zero for an absent key and for a stored zero.
\<close>

definition shouldSendMessage ::
  "bool \<Rightarrow> int \<Rightarrow> int \<Rightarrow> int \<Rightarrow> jsval \<Rightarrow> (string, int) jsmap \<Rightarrow> bool \<times> (string, int) jsmap" where
  "shouldSendMessage dedupeEnabled ttl clock now msg recentEvents =
     (if \<not> dedupeEnabled \<or> ttl \<le> 0 then (True, recentEvents)
      else
        (let key = makeEventKey clock msg;
             last = (case Map_get key recentEvents of None \<Rightarrow> 0 | Some t \<Rightarrow> t)
         in if now - last < ttl then (False, recentEvents)
            else
              (let stored = Map_set key now recentEvents;
                   cutoff = now - ttl
               in (True,
                   if length stored > 200 then filter (\<lambda>p. \<not> snd p < cutoff) stored else stored))))"

section \<open>JavaScript comparison operators\<close>

text \<open>
  White space as \<open>String.prototype.trim\<close> and the string-to-number conversion strip it: the
  code units of the white-space and line-terminator characters below 256.
\<close>

definition js_space :: "char \<Rightarrow> bool" where
  "js_space c = (of_char c \<in> {9, 10, 11, 12, 13, 32, 160 :: nat})"

definition trim :: "string \<Rightarrow> string" where
  "trim s = rev (dropWhile js_space (rev (dropWhile js_space s)))"


definition is_digit :: "char \<Rightarrow> bool" where
  "is_digit c = (48 \<le> (of_char c :: nat) \<and> (of_char c :: nat) \<le> 57)"

definition digits_value :: "string \<Rightarrow> nat" where
  "digits_value ds = fold (\<lambda>c n. 10 * n + ((of_char c :: nat) - 48)) ds 0"

text \<open>
  The number a string converts to, \<open>None\<close> for \<open>NaN\<close>: white space is stripped, the empty
  string is zero, and a run of decimal digits with an optional sign is its value. The other
  numeral forms (fraction, exponent, radix prefix, \<open>Infinity\<close>) denote numbers outside the
  value domain or written otherwise; they read as \<open>NaN\<close> here.
\<close>

definition string_to_int :: "string \<Rightarrow> int option" where
  "string_to_int s =
     (case trim s of
        [] \<Rightarrow> Some 0
      | c # ds \<Rightarrow>
          if c = CHR ''-'' then (if ds \<noteq> [] \<and> list_all is_digit ds then Some (- int (digits_value ds)) else None)
          else if c = CHR ''+'' then (if ds \<noteq> [] \<and> list_all is_digit ds then Some (int (digits_value ds)) else None)
          else if list_all is_digit (c # ds) then Some (int (digits_value (c # ds)))
          else None)"

definition is_object :: "jsval \<Rightarrow> bool" where
  "is_object v = (case v of JArr xs \<Rightarrow> True | JObj ps \<Rightarrow> True | JDate ms isoStr txt \<Rightarrow> True | _ \<Rightarrow> False)"

definition nullish :: "jsval \<Rightarrow> bool" where
  "nullish v = (v = JUndefined \<or> v = JNull)"

text \<open>
  \<open>ToPrimitive\<close>. With the hint \<open>number\<close> (the relational operators) a \<open>Date\<close> gives its
  time value; with the default hint (\<open>==\<close>) it gives \<open>toString()\<close>. Arrays and plain objects
  give their string form under either hint.
\<close>

datatype hint = HintDefault | HintNumber

definition to_primitive :: "hint \<Rightarrow> jsval \<Rightarrow> jsval" where
  "to_primitive h v =
     (case v of
        JDate ms isoStr txt \<Rightarrow> (case h of HintNumber \<Rightarrow> JNum ms | HintDefault \<Rightarrow> JStr txt)
      | JArr xs \<Rightarrow> JStr (js_to_string (JArr xs))
      | JObj ps \<Rightarrow> JStr (js_to_string (JObj ps))
      | _ \<Rightarrow> v)"

text \<open>\<open>ToNumeric\<close> of a primitive as a mathematical value; \<open>None\<close> is \<open>NaN\<close>.\<close>

definition to_numeric :: "jsval \<Rightarrow> int option" where
  "to_numeric v =
     (case v of
        JNull \<Rightarrow> Some 0
      | JBool b \<Rightarrow> Some (if b then 1 else 0)
      | JNum n \<Rightarrow> Some n
      | JBigInt n \<Rightarrow> Some n
      | JStr s \<Rightarrow> string_to_int s
      | _ \<Rightarrow> None)"

text \<open>
  \<open>IsLessThan\<close>: two strings compare by code units, anything else numerically; \<open>None\<close> is the
  undefined result of a comparison with \<open>NaN\<close>.
\<close>

definition IsLessThan :: "jsval \<Rightarrow> jsval \<Rightarrow> bool option" where
  "IsLessThan x y =
     (let px = to_primitive HintNumber x; py = to_primitive HintNumber y
      in case (px, py) of
           (JStr a, JStr b) \<Rightarrow> Some (a < b)
         | _ \<Rightarrow> (case (to_numeric px, to_numeric py) of
                   (Some a, Some b) \<Rightarrow> Some (a < b)
                 | _ \<Rightarrow> None))"

definition js_lt :: "jsval \<Rightarrow> jsval \<Rightarrow> bool" where "js_lt x y = (IsLessThan x y = Some True)"
definition js_gt :: "jsval \<Rightarrow> jsval \<Rightarrow> bool" where "js_gt x y = (IsLessThan y x = Some True)"
definition js_le :: "jsval \<Rightarrow> jsval \<Rightarrow> bool" where "js_le x y = (IsLessThan y x = Some False)"
definition js_ge :: "jsval \<Rightarrow> jsval \<Rightarrow> bool" where "js_ge x y = (IsLessThan x y = Some False)"

text \<open>
  \<open>x == y\<close>. \<open>null\<close> and \<open>undefined\<close> equal each other and nothing else. Two objects are
  equal only when they are the same reference; the two operands compared here come from a
  data row and from the chart configuration, so they never are. Otherwise objects are
  converted to primitives; two strings compare as strings and any other pair numerically.
\<close>

definition js_loose_eq :: "jsval \<Rightarrow> jsval \<Rightarrow> bool" where
  "js_loose_eq x y =
     (if nullish x \<or> nullish y then nullish x \<and> nullish y
      else if is_object x \<and> is_object y then False
      else (let px = to_primitive HintDefault x; py = to_primitive HintDefault y
            in case (px, py) of
                 (JStr a, JStr b) \<Rightarrow> a = b
               | _ \<Rightarrow> (case (to_numeric px, to_numeric py) of
                         (Some a, Some b) \<Rightarrow> a = b
                       | _ \<Rightarrow> False)))"

section \<open>Action visibility (ActionCell.tsx)\<close>






section \<open>\<open>JSON.parse\<close>\<close>

text \<open>
  A model of the platform's parser over the value domain: a recursive-descent parser of the
  JSON grammar. A numeral with a fraction or an exponent, or a \<open>\u\<close> escape above \<open>00ff\<close>,
  denotes a value outside the domain; the model has no value for a text that contains one and
  answers \<open>None\<close>, as it does for a text that is not JSON (where the platform throws a
  \<open>SyntaxError\<close>).
\<close>

definition json_ws :: "char \<Rightarrow> bool" where
  "json_ws c = (of_char c \<in> {9, 10, 13, 32 :: nat})"

definition skip_ws :: "string \<Rightarrow> string" where
  "skip_ws s = dropWhile json_ws s"

definition hex_value :: "char \<Rightarrow> nat option" where
  "hex_value c =
     (let n = (of_char c :: nat) in
      if 48 \<le> n \<and> n \<le> 57 then Some (n - 48)
      else if 97 \<le> n \<and> n \<le> 102 then Some (n - 87)
      else if 65 \<le> n \<and> n \<le> 70 then Some (n - 55)
      else None)"

text \<open>The character a two-character escape stands for.\<close>

definition unescape :: "char \<Rightarrow> char option" where
  "unescape e =
     (if e = dquote then Some dquote
      else if e = bslash then Some bslash
      else if e = CHR ''/'' then Some (CHR ''/'')
      else if e = CHR ''b'' then Some (char_of (8 :: nat))
      else if e = CHR ''f'' then Some (char_of (12 :: nat))
      else if e = CHR ''n'' then Some (char_of (10 :: nat))
      else if e = CHR ''r'' then Some (char_of (13 :: nat))
      else if e = CHR ''t'' then Some (char_of (9 :: nat))
      else None)"

text \<open>
  The characters of a string after its opening quote: the string and the text after the
  closing quote.
\<close>

fun parse_chars :: "string \<Rightarrow> (string \<times> string) option" where
  "parse_chars [] = None"
| "parse_chars (c # cs) =
     (if c = dquote then Some ([], cs)
      else if c = bslash then
        (case cs of
           [] \<Rightarrow> None
         | e # cs' \<Rightarrow>
             if e = CHR ''u'' then
               (case cs' of
                  h1 # h2 # h3 # h4 # cs'' \<Rightarrow>
                    (case (hex_value h1, hex_value h2, hex_value h3, hex_value h4) of
                       (Some a, Some b, Some c', Some d) \<Rightarrow>
                         if a = 0 \<and> b = 0
                         then (case parse_chars cs'' of
                                 None \<Rightarrow> None
                               | Some (s, r) \<Rightarrow> Some (char_of (16 * c' + d) # s, r))
                         else None
                     | _ \<Rightarrow> None)
                | _ \<Rightarrow> None)
             else (case unescape e of
                     None \<Rightarrow> None
                   | Some ch \<Rightarrow>
                       (case parse_chars cs' of
                          None \<Rightarrow> None
                        | Some (s, r) \<Rightarrow> Some (ch # s, r))))
      else if (of_char c :: nat) < 32 then None
      else (case parse_chars cs of
              None \<Rightarrow> None
            | Some (s, r) \<Rightarrow> Some (c # s, r)))"

text \<open>
  An integer numeral: an optional minus sign and digits without a leading zero. The text
  after it must not continue the numeral with a fraction or an exponent.
\<close>

definition parse_number :: "string \<Rightarrow> (int \<times> string) option" where
  "parse_number s =
     (let neg = (case s of [] \<Rightarrow> False | c # cs \<Rightarrow> c = CHR ''-'');
          s1 = (if neg then tl s else s);
          ds = takeWhile is_digit s1;
          rest = dropWhile is_digit s1
      in if ds = [] then None
         else if length ds > 1 \<and> take 1 ds = ''0'' then None
         else if (case rest of [] \<Rightarrow> False | c # cs \<Rightarrow> c = CHR ''.'' \<or> c = CHR ''e'' \<or> c = CHR ''E'') then None
         else Some (if neg then - int (digits_value ds) else int (digits_value ds), rest))"

text \<open>
  Values, array elements and object members. The first argument bounds the number of nested
  calls; \<open>JSON_parse\<close> starts with more than the text can use. A repeated property name keeps
  its first place and its last value.
\<close>

fun parse_value :: "nat \<Rightarrow> string \<Rightarrow> (jsval \<times> string) option"
and parse_elements :: "nat \<Rightarrow> string \<Rightarrow> (jsval list \<times> string) option"
and parse_members :: "nat \<Rightarrow> string \<Rightarrow> ((string \<times> jsval) list \<times> string) option"
where
  "parse_value 0 s = None"
| "parse_value (Suc n) s =
     (case skip_ws s of
        [] \<Rightarrow> None
      | c # cs \<Rightarrow>
          if c = dquote then
            (case parse_chars cs of None \<Rightarrow> None | Some (str, rest) \<Rightarrow> Some (JStr str, rest))
          else if c = CHR ''['' then
            (case skip_ws cs of
               [] \<Rightarrow> None
             | d # ds \<Rightarrow>
                 if d = CHR '']'' then Some (JArr [], ds)
                 else (case parse_elements n cs of
                         None \<Rightarrow> None
                       | Some (vs, rest) \<Rightarrow> Some (JArr vs, rest)))
          else if c = CHR ''{'' then
            (case skip_ws cs of
               [] \<Rightarrow> None
             | d # ds \<Rightarrow>
                 if d = CHR ''}'' then Some (JObj [], ds)
                 else (case parse_members n cs of
                         None \<Rightarrow> None
                       | Some (ps, rest) \<Rightarrow> Some (JObj (Map_of_entries ps), rest)))
          else if take 4 (c # cs) = ''true'' then Some (JBool True, drop 4 (c # cs))
          else if take 5 (c # cs) = ''false'' then Some (JBool False, drop 5 (c # cs))
          else if take 4 (c # cs) = ''null'' then Some (JNull, drop 4 (c # cs))
          else (case parse_number (c # cs) of
                  None \<Rightarrow> None
                | Some (i, rest) \<Rightarrow> Some (JNum i, rest)))"
| "parse_elements 0 s = None"
| "parse_elements (Suc n) s =
     (case parse_value n s of
        None \<Rightarrow> None
      | Some (v, rest) \<Rightarrow>
          (case skip_ws rest of
             [] \<Rightarrow> None
           | d # ds \<Rightarrow>
               if d = CHR '']'' then Some ([v], ds)
               else if d = CHR '','' then
                 (case parse_elements n ds of
                    None \<Rightarrow> None
                  | Some (vs, r) \<Rightarrow> Some (v # vs, r))
               else None))"
| "parse_members 0 s = None"
| "parse_members (Suc n) s =
     (case skip_ws s of
        [] \<Rightarrow> None
      | c # cs \<Rightarrow>
          if c = dquote then
            (case parse_chars cs of
               None \<Rightarrow> None
             | Some (k, rest) \<Rightarrow>
                 (case skip_ws rest of
                    [] \<Rightarrow> None
                  | e # es \<Rightarrow>
                      if e = CHR '':'' then
                        (case parse_value n es of
                           None \<Rightarrow> None
                         | Some (v, rest') \<Rightarrow>
                             (case skip_ws rest' of
                                [] \<Rightarrow> None
                              | d # ds \<Rightarrow>
                                  if d = CHR ''}'' then Some ([(k, v)], ds)
                                  else if d = CHR '','' then
                                    (case parse_members n ds of
                                       None \<Rightarrow> None
                                     | Some (ps, r) \<Rightarrow> Some ((k, v) # ps, r))
                                  else None))
                      else None))
          else None)"

definition JSON_parse :: "string \<Rightarrow> jsval option" where
  "JSON_parse s =
     (case parse_value (2 * length s + 2) s of
        None \<Rightarrow> None
      | Some (v, rest) \<Rightarrow> if skip_ws rest = [] then Some v else None)"

section \<open>JSON data\<close>

text \<open>
  The values that are JSON data: \<open>null\<close>, booleans, numbers, strings, arrays of JSON data
  and objects with pairwise distinct property names whose values are JSON data. \<open>undefined\<close>,
  a \<open>BigInt\<close> and a \<open>Date\<close> are not.
\<close>

fun json_data :: "jsval \<Rightarrow> bool" where
  "json_data JNull = True"
| "json_data (JBool b) = True"
| "json_data (JNum i) = True"
| "json_data (JStr s) = True"
| "json_data (JArr xs) = list_all json_data xs"
| "json_data (JObj ps) = (distinct (map fst ps) \<and> list_all (\<lambda>p. json_data (snd p)) ps)"
| "json_data JUndefined = False"
| "json_data (JBigInt i) = False"
| "json_data (JDate ms isoStr txt) = False"

text \<open>The text of a value that serializes to one.\<close>

definition jtext :: "jsval \<Rightarrow> string" where
  "jtext v = (case SerializeJSONProperty v of Text t \<Rightarrow> t | _ \<Rightarrow> [])"

text \<open>A bound on the nested calls the parser makes for a value.\<close>

fun jsize :: "jsval \<Rightarrow> nat" where
  "jsize (JArr xs) = Suc (sum_list (map (\<lambda>x. Suc (jsize x)) xs))"
| "jsize (JObj ps) = Suc (sum_list (map (\<lambda>p. Suc (jsize (snd p))) ps))"
| "jsize v = 0"

text \<open>What may follow a value inside a JSON text: nothing, a comma or a closing bracket.\<close>

definition delim :: "string \<Rightarrow> bool" where
  "delim rest = (case rest of [] \<Rightarrow> True | c # cs \<Rightarrow> c = CHR '','' \<or> c = CHR '']'' \<or> c = CHR ''}'')"

text \<open>
  A text that starts with the first character of a value: no white space and no closing
  bracket.
\<close>

definition starts_value :: "string \<Rightarrow> bool" where
  "starts_value t = (case t of [] \<Rightarrow> False | c # cs \<Rightarrow> \<not> json_ws c \<and> c \<noteq> CHR '']'' \<and> c \<noteq> CHR ''}'')"


section \<open>Persisting the selection\<close>

text \<open>
  \<open>localStorage\<close>: a store of strings under string keys. \<open>setItem\<close> is taken to succeed
  (no quota). The key of a chart is the template literal \<open>selectedRows_${sliceId}\<close>.
\<close>

type_synonym storage = "string \<rightharpoonup> string"

definition storage_key :: "jsval \<Rightarrow> string" where
  "storage_key sliceId = ''selectedRows_'' @ js_to_string sliceId"

text \<open>
  The selection as the component state holds it at run time: a \<open>Map\<close> from values to
  values. \<open>selection_state\<close> is the state for a selection with string ids and rows.
\<close>

type_synonym selectedRows = "(jsval, jsval) jsmap"

definition selection_state :: "selection \<Rightarrow> selectedRows" where
  "selection_state sel = map (\<lambda>(k, r). (JStr k, JObj r)) sel"

text \<open>
  The persist effect: with retention, \<open>JSON.stringify(Array.from(selectedRows.entries()))\<close>
  is stored under the chart's key; a thrown error is caught and leaves the store as it was.
  Without retention the key is removed.
\<close>

definition persist_selection :: "bool \<Rightarrow> jsval \<Rightarrow> selectedRows \<Rightarrow> storage \<Rightarrow> storage" where
  "persist_selection retainSelectionAcrossNavigation sliceId selectedRows ls =
     (if retainSelectionAcrossNavigation then
        (case stringify_array (map (\<lambda>(k, r). JArr [k, r]) selectedRows) of
           None \<Rightarrow> ls
         | Some serialized \<Rightarrow> ls(storage_key sliceId \<mapsto> serialized))
      else ls(storage_key sliceId := None))"

text \<open>
  \<open>SameValueZero\<close>, the equality of \<open>Map\<close> keys and \<open>Set\<close> elements: primitives are
  compared by value, objects by identity. Values have no identity here; the objects of one
  array are taken to be pairwise different objects, as the objects of a parsed text are.
\<close>

definition same_value_zero :: "jsval \<Rightarrow> jsval \<Rightarrow> bool" where
  "same_value_zero a b = (\<not> is_object a \<and> \<not> is_object b \<and> a = b)"

primrec Map_set_value :: "jsval \<Rightarrow> jsval \<Rightarrow> selectedRows \<Rightarrow> selectedRows" where
  "Map_set_value k v [] = [(k, v)]"
| "Map_set_value k v (p # m) =
     (if same_value_zero (fst p) k then (fst p, v) # m else p # Map_set_value k v m)"

text \<open>
  \<open>new Map(iterable)\<close>. \<open>null\<close> and \<open>undefined\<close> give the empty \<open>Map\<close>, and so does the empty
  string, which iterates over nothing. An array is read entry by entry: an entry that is not
  an object throws a \<open>TypeError\<close>, otherwise its properties \<open>0\<close> and \<open>1\<close> are the key and the
  value. Every other value throws: a non-empty string iterates over its characters, which
  are not objects, and a number, a boolean and a plain object are not iterable. \<open>None\<close> is
  the thrown error.
\<close>

definition entry_field :: "jsval \<Rightarrow> nat \<Rightarrow> jsval" where
  "entry_field e i =
     (case e of
        JArr xs \<Rightarrow> if i < length xs then xs ! i else JUndefined
      | JObj ps \<Rightarrow> get_prop (show_nat i) ps
      | _ \<Rightarrow> JUndefined)"

definition Map_from_iterable :: "jsval \<Rightarrow> selectedRows option" where
  "Map_from_iterable v =
     (case v of
        JUndefined \<Rightarrow> Some []
      | JNull \<Rightarrow> Some []
      | JStr s \<Rightarrow> if s = [] then Some [] else None
      | JArr es \<Rightarrow>
          if list_all is_object es
          then Some (fold (\<lambda>e. Map_set_value (entry_field e 0) (entry_field e 1)) es [])
          else None
      | _ \<Rightarrow> None)"

text \<open>
  The restore effect. Its arguments are the platform's \<open>JSON.parse\<close> (\<open>None\<close> when it
  throws), the retention setting, the chart id, \<open>firstLoadRef.current\<close> and the store. It
  returns the new \<open>firstLoadRef.current\<close>, the argument of \<open>setSelectedRows\<close> when it is called,
  and the store. A saved text that is empty is falsy and is not read.
\<close>

definition restore_selection ::
  "(string \<Rightarrow> jsval option) \<Rightarrow> bool \<Rightarrow> jsval \<Rightarrow> bool \<Rightarrow> storage
     \<Rightarrow> bool \<times> selectedRows option \<times> storage" where
  "restore_selection parse retainSelectionAcrossNavigation sliceId firstLoadRef ls =
     (if \<not> firstLoadRef then
        (if retainSelectionAcrossNavigation then
           (case ls (storage_key sliceId) of
              None \<Rightarrow> (True, None, ls)
            | Some savedSelectedRows \<Rightarrow>
                if savedSelectedRows = [] then (True, None, ls)
                else (case parse savedSelectedRows of
                        None \<Rightarrow> (True, None, ls)
                      | Some parsed \<Rightarrow> (True, Map_from_iterable parsed, ls)))
         else (True, None, ls(storage_key sliceId := None)))
      else (firstLoadRef, None, ls))"

text \<open>
  Mounting the chart. The first render has the empty selection and \<open>firstLoadRef.current =
  false\<close>; its effects run in the order of the source: the restore effect, then the persist
  effect, which still sees the empty selection of that render. When the restore effect has
  set the state, the chart renders again with the restored selection and the persist effect
  runs once more (the restore effect does not: its dependencies have not changed). The
  result is the selection and the store after that.
\<close>

definition mount :: "(string \<Rightarrow> jsval option) \<Rightarrow> bool \<Rightarrow> jsval \<Rightarrow> storage \<Rightarrow> selectedRows \<times> storage" where
  "mount parse retainSelectionAcrossNavigation sliceId ls =
     (case restore_selection parse retainSelectionAcrossNavigation sliceId False ls of
        (firstLoadRef, restored, ls1) \<Rightarrow>
          (let ls2 = persist_selection retainSelectionAcrossNavigation sliceId [] ls1
           in case restored of
                None \<Rightarrow> ([], ls2)
              | Some parsed \<Rightarrow>
                  (parsed, persist_selection retainSelectionAcrossNavigation sliceId parsed ls2)))"


section \<open>Coercing the action lists\<close>

text \<open>
  A \<open>Set\<close> keeps its elements in insertion order; \<open>add\<close> of an element that is already there
  (by \<open>SameValueZero\<close>) changes nothing. \<open>new Set(array)\<close> adds the elements in order.
\<close>

definition Set_add :: "jsval \<Rightarrow> jsval list \<Rightarrow> jsval list" where
  "Set_add x s = (if list_ex (\<lambda>y. same_value_zero y x) s then s else s @ [x])"

definition Set_from_array :: "jsval list \<Rightarrow> jsval list" where
  "Set_from_array xs = fold Set_add xs []"

text \<open>
  The input of \<open>parseOrConvertToSet\<close> is any value of the form data, or a \<open>Set\<close> given by its
  elements. The first argument is the platform's \<open>JSON.parse\<close>, \<open>None\<close> when it throws.
\<close>

datatype coerce_input = Value jsval | SetObject "jsval list"

text \<open>\<open>typeof v === 'string'\<close> and \<open>Array.isArray(v)\<close>.\<close>

definition is_string :: "jsval \<Rightarrow> bool" where
  "is_string v = (case v of JStr s \<Rightarrow> True | _ \<Rightarrow> False)"

definition is_array :: "jsval \<Rightarrow> bool" where
  "is_array v = (case v of JArr xs \<Rightarrow> True | _ \<Rightarrow> False)"

definition parseOrConvertToSet :: "(string \<Rightarrow> jsval option) \<Rightarrow> coerce_input \<Rightarrow> jsval list" where
  "parseOrConvertToSet parse input =
     (case input of
        Value (JStr s) \<Rightarrow>
          (case parse s of
             None \<Rightarrow> []
           | Some parsed \<Rightarrow> (case parsed of JArr xs \<Rightarrow> Set_from_array xs | _ \<Rightarrow> []))
      | Value (JArr xs) \<Rightarrow> Set_from_array xs
      | SetObject s \<Rightarrow> s
      | Value _ \<Rightarrow> [])"

section \<open>Example inputs\<close>

text \<open>Four rows of a dataset whose identifier column is \<open>id\<close>.\<close>

definition ex_row1 :: row where "ex_row1 = [(''id'', JNum 1), (''name'', JStr ''a'')]"
definition ex_row2 :: row where "ex_row2 = [(''id'', JNum 2), (''name'', JStr ''b'')]"
definition ex_row3 :: row where "ex_row3 = [(''id'', JNum 3), (''name'', JStr ''c'')]"

text \<open>Two rows that lack the identifier column: both get the identifier \<open>undefined\<close>.\<close>

definition ex_anon1 :: row where "ex_anon1 = [(''name'', JStr ''x'')]"
definition ex_anon2 :: row where "ex_anon2 = [(''name'', JStr ''y'')]"

text \<open>A stored server page: page size 10, page index 5.\<close>

definition ex_spd :: serverPaginationData where
  "ex_spd = \<lparr> spd_pageSize = Some 10, spd_currentPage = Some 5 \<rparr>"

text \<open>
  Outbound messages: a bulk action on one row, the same with the properties of the message
  and of the row in another order and another origin, and the same with only the row's
  properties reordered.
\<close>

definition ex_msg :: jsval where
  "ex_msg = JObj [(''action'', JStr ''bulk-action''), (''chartId'', JNum 1),
                  (''actionType'', JStr ''approve''),
                  (''values'', JArr [JObj [(''id'', JNum 1), (''name'', JStr ''a'')]]),
                  (''origin'', JStr ''bulk'')]"

definition ex_msg_shuffled :: jsval where
  "ex_msg_shuffled = JObj [(''origin'', JStr ''header''),
                  (''values'', JArr [JObj [(''id'', JNum 1), (''name'', JStr ''a'')]]),
                  (''actionType'', JStr ''approve''), (''chartId'', JNum 1),
                  (''action'', JStr ''bulk-action'')]"

definition ex_msg_row_reordered :: jsval where
  "ex_msg_row_reordered = JObj [(''action'', JStr ''bulk-action''), (''chartId'', JNum 1),
                  (''actionType'', JStr ''approve''),
                  (''values'', JArr [JObj [(''name'', JStr ''a''), (''id'', JNum 1)]]),
                  (''origin'', JStr ''bulk'')]"





text \<open>
  A selection of two rows, and a selection whose row holds a \<open>Date\<close> in a temporal column,
  with the same selection as it is after a reload.
\<close>

definition ex_selection :: selection where
  "ex_selection = [(''1'', ex_row1), (''2'', ex_row2)]"

definition ex_selection_date :: selection where
  "ex_selection_date =
     [(''1'', [(''id'', JNum 1),
               (''ds'', JDate 1704067200000 ''2024-01-01T00:00:00.000Z''
                          ''Mon Jan 01 2024 00:00:00 GMT+0000 (Coordinated Universal Time)'')])]"

definition ex_selection_date_reloaded :: selection where
  "ex_selection_date_reloaded =
     [(''1'', [(''id'', JNum 1), (''ds'', JStr ''2024-01-01T00:00:00.000Z'')])]"

section \<open>Properties of the selection store\<close>

lemma map_of_Map_set: "map_of (Map_set k v m) = (map_of m)(k \<mapsto> v)"
  by (induction m) (auto simp: fun_eq_iff)

lemma keys_Map_set:
  "map fst (Map_set k v m) = (if k \<in> set (map fst m) then map fst m else map fst m @ [k])"
  by (induction m) auto

lemma Map_set_absent: "k \<notin> set (map fst m) \<Longrightarrow> Map_set k v m = m @ [(k, v)]"
  by (induction m) auto

lemma map_of_Map_delete: "map_of (Map_delete k m) = (map_of m)(k := None)"
  by (induction m) (auto simp: fun_eq_iff Map_delete_def)

lemma Map_has_iff: "Map_has k m \<longleftrightarrow> map_of m k \<noteq> None"
  by (simp add: Map_has_def map_of_eq_None_iff)

lemma fold_Map_delete: "fold Map_delete ks m = filter (\<lambda>p. fst p \<notin> set ks) m"
  by (induction ks arbitrary: m) (auto simp: Map_delete_def intro: filter_cong)

lemma filter_Map_set_other:
  "k \<in> A \<Longrightarrow> filter (\<lambda>p. fst p \<notin> A) (Map_set k v m) = filter (\<lambda>p. fst p \<notin> A) m"
  by (induction m) auto

lemma filter_fold_Map_set:
  "f ` set rs \<subseteq> A \<Longrightarrow>
     filter (\<lambda>p. fst p \<notin> A) (fold (\<lambda>r. Map_set (f r) r) rs m) = filter (\<lambda>p. fst p \<notin> A) m"
  by (induction rs arbitrary: m) (auto simp: filter_Map_set_other)

lemma map_of_fold_Map_set:
  "map_of (fold (\<lambda>r. Map_set (f r) r) rs m) = map_of m ++ map_of (rev (map (\<lambda>r. (f r, r)) rs))"
  by (induction rs arbitrary: m) (auto simp: map_of_Map_set fun_eq_iff map_add_def split: option.splits)

lemma dom_Map_set: "fst ` set (Map_set k v m) = insert k (fst ` set m)"
  by (induction m) auto

lemma keys_fold_Map_set:
  "fst ` set (fold (\<lambda>r. Map_set (f r) r) rs m) = fst ` set m \<union> f ` set rs"
  by (induction rs arbitrary: m) (simp_all add: dom_Map_set)

lemma distinct_Map_set: "distinct (map fst m) \<Longrightarrow> distinct (map fst (Map_set k v m))"
  by (simp add: keys_Map_set)

lemma distinct_fold_Map_set:
  "distinct (map fst m) \<Longrightarrow> distinct (map fst (fold (\<lambda>r. Map_set (f r) r) rs m))"
  by (induction rs arbitrary: m) (auto simp: distinct_Map_set)

lemma Map_set_append_absent:
  "k \<notin> fst ` set m \<Longrightarrow> Map_set k v (m @ e) = m @ Map_set k v e"
  by (induction m) auto

lemma fold_Map_set_append:
  "f ` set rs \<inter> fst ` set m = {} \<Longrightarrow>
     fold (\<lambda>r. Map_set (f r) r) rs m = m @ fold (\<lambda>r. Map_set (f r) r) rs []"
proof (induction rs rule: rev_induct)
  case Nil
  show ?case by simp
next
  case (snoc r rs)
  then have "f r \<notin> fst ` set m" and "f ` set rs \<inter> fst ` set m = {}" by auto
  then show ?case using snoc.IH by (simp add: Map_set_append_absent)
qed

lemma fold_Map_set_distinct:
  "distinct (map f rs) \<Longrightarrow> fold (\<lambda>r. Map_set (f r) r) rs [] = map (\<lambda>r. (f r, r)) rs"
proof (induction rs rule: rev_induct)
  case Nil
  show ?case by simp
next
  case (snoc r rs)
  then have "f r \<notin> set (map fst (map (\<lambda>r. (f r, r)) rs))" by (auto simp: comp_def)
  then show ?case using snoc by (simp add: Map_set_absent)
qed

lemma handleBulkSelect_all_selected:
  assumes "visibleData \<noteq> []" "\<forall>r\<in>set visibleData. Map_has (row_id idcol r) prev"
  shows "handleBulkSelect idcol visibleData prev
         = filter (\<lambda>p. fst p \<notin> row_id idcol ` set visibleData) prev"
  using assms by (simp add: handleBulkSelect_def Let_def list_all_iff fold_Map_delete)

lemma handleBulkSelect_not_all:
  assumes "\<not> (\<forall>r\<in>set visibleData. Map_has (row_id idcol r) prev)"
  shows "handleBulkSelect idcol visibleData prev
         = fold (\<lambda>r m. Map_set (row_id idcol r) r m) visibleData prev"
  using assms by (auto simp add: handleBulkSelect_def Let_def list_all_iff)

lemma map_of_rev_distinct:
  "distinct (map f rs) \<Longrightarrow> r \<in> set rs \<Longrightarrow> map_of (rev (map (\<lambda>r. (f r, r)) rs)) (f r) = Some r"
proof -
  assume d: "distinct (map f rs)" and r: "r \<in> set rs"
  have "distinct (map fst (rev (map (\<lambda>r. (f r, r)) rs)))"
    using d by (simp add: rev_map[symmetric] comp_def)
  moreover have "(f r, r) \<in> set (rev (map (\<lambda>r. (f r, r)) rs))" using r by auto
  ultimately show ?thesis by (rule map_of_is_SomeI)
qed

lemma map_of_rev_None:
  "k \<notin> f ` set rs \<Longrightarrow> map_of (rev (map (\<lambda>r. (f r, r)) rs)) k = None"
  by (auto simp: map_of_eq_None_iff image_iff)

lemma map_of_rev_in:
  "map_of (rev (map (\<lambda>r. (f r, r)) rs)) k = Some r \<Longrightarrow> r \<in> set rs \<and> f r = k"
  by (auto dest!: map_of_SomeD)

lemma map_of_filter_keys:
  "map_of (filter (\<lambda>p. fst p \<notin> A) m) k = (if k \<in> A then None else map_of m k)"
  by (induction m) auto

lemma Map_get_fold_Map_set:
  "Map_get k (fold (\<lambda>r. Map_set (f r) r) rs m)
   = (if k \<in> f ` set rs then map_of (rev (map (\<lambda>r. (f r, r)) rs)) k else Map_get k m)"
proof (cases "k \<in> f ` set rs")
  case True
  then have "map_of (rev (map (\<lambda>r. (f r, r)) rs)) k \<noteq> None"
    by (auto simp: map_of_eq_None_iff image_iff)
  then show ?thesis using True
    by (auto simp: Map_get_def map_of_fold_Map_set map_add_def split: option.splits)
next
  case False
  then show ?thesis
    by (simp add: Map_get_def map_of_fold_Map_set map_add_def map_of_rev_None)
qed

lemma Map_has_fold_Map_set: "r \<in> set rs \<Longrightarrow> Map_has (f r) (fold (\<lambda>r. Map_set (f r) r) rs m)"
  unfolding Map_has_def using keys_fold_Map_set[of f rs m] by auto

text \<open>
  Claim C4 (amended). Toggle-all over a non-empty visible page. When every visible row id
  is already selected, the new selection is the old one without the entries of the visible
  ids. Otherwise every visible id is selected afterwards and maps to the last visible row
  that carries this id; each visible row is stored under its id when the visible ids are
  pairwise distinct. In both cases the entries of ids outside the visible page, and their
  order, are unchanged.
\<close>

theorem handleBulkSelect_toggle_all:
  assumes "visibleData \<noteq> []"
  shows "(if \<forall>r\<in>set visibleData. Map_has (row_id idcol r) prev
          then handleBulkSelect idcol visibleData prev
                 = filter (\<lambda>p. fst p \<notin> row_id idcol ` set visibleData) prev
               \<and> (\<forall>k. Map_get k (handleBulkSelect idcol visibleData prev)
                      = (if k \<in> row_id idcol ` set visibleData then None else Map_get k prev))
          else (\<forall>r\<in>set visibleData. Map_has (row_id idcol r) (handleBulkSelect idcol visibleData prev))
               \<and> (\<forall>k. Map_get k (handleBulkSelect idcol visibleData prev)
                      = (if k \<in> row_id idcol ` set visibleData
                         then map_of (rev (map (\<lambda>r. (row_id idcol r, r)) visibleData)) k
                         else Map_get k prev))
               \<and> (distinct (map (row_id idcol) visibleData) \<longrightarrow>
                    (\<forall>r\<in>set visibleData. Map_get (row_id idcol r) (handleBulkSelect idcol visibleData prev) = Some r)))
         \<and> filter (\<lambda>p. fst p \<notin> row_id idcol ` set visibleData) (handleBulkSelect idcol visibleData prev)
             = filter (\<lambda>p. fst p \<notin> row_id idcol ` set visibleData) prev"
proof (cases "\<forall>r\<in>set visibleData. Map_has (row_id idcol r) prev")
  case True
  have eq: "handleBulkSelect idcol visibleData prev
         = filter (\<lambda>p. fst p \<notin> row_id idcol ` set visibleData) prev"
    using assms True by (rule handleBulkSelect_all_selected)
  show ?thesis
    apply (subst if_P[OF True])
    by (simp add: eq Map_get_def map_of_filter_keys)
next
  case False
  let ?f = "row_id idcol"
  let ?new = "handleBulkSelect idcol visibleData prev"
  have eq: "?new = fold (\<lambda>r m. Map_set (?f r) r m) visibleData prev"
    using False by (rule handleBulkSelect_not_all)
  have has: "\<forall>r\<in>set visibleData. Map_has (?f r) ?new"
    unfolding eq by (simp add: Map_has_fold_Map_set)
  have get: "\<forall>k. Map_get k ?new = (if k \<in> ?f ` set visibleData
                         then map_of (rev (map (\<lambda>r. (?f r, r)) visibleData)) k
                         else Map_get k prev)"
    unfolding eq by (simp only: Map_get_fold_Map_set) simp
  have dist: "distinct (map ?f visibleData) \<longrightarrow> (\<forall>r\<in>set visibleData. Map_get (?f r) ?new = Some r)"
    using get by (auto simp: map_of_rev_distinct)
  have filt: "filter (\<lambda>p. fst p \<notin> ?f ` set visibleData) ?new = filter (\<lambda>p. fst p \<notin> ?f ` set visibleData) prev"
    unfolding eq by (rule filter_fold_Map_set) simp
  show ?thesis
    apply (subst if_not_P[OF False])
    using has get dist filt by blast
qed

theorem handleBulkSelect_toggle_all_witness:
  "[ex_row1, ex_row2] \<noteq> []
   \<and> distinct (map (row_id ''id'') [ex_row1, ex_row2])
   \<and> \<not> Map_has (row_id ''id'' ex_row2) [(''1'', ex_row1), (''7'', ex_row3)]
   \<and> Map_get ''2'' (handleBulkSelect ''id'' [ex_row1, ex_row2] [(''1'', ex_row1), (''7'', ex_row3)]) = Some ex_row2
   \<and> Map_get ''7'' (handleBulkSelect ''id'' [ex_row1, ex_row2] [(''1'', ex_row1), (''7'', ex_row3)]) = Some ex_row3
   \<and> [ex_row1] \<noteq> []
   \<and> Map_has (row_id ''id'' ex_row1) [(''1'', ex_row1), (''7'', ex_row3)]
   \<and> handleBulkSelect ''id'' [ex_row1] [(''1'', ex_row1), (''7'', ex_row3)] = [(''7'', ex_row3)]"
proof -
  let ?prev = "[(''1'', ex_row1), (''7'', ex_row3)]"
  have ids: "row_id ''id'' ex_row1 = ''1''" "row_id ''id'' ex_row2 = ''2''" by code_simp+
  have ne: "[ex_row1, ex_row2] \<noteq> []" "[ex_row1] \<noteq> []" by simp_all
  have d: "distinct (map (row_id ''id'') [ex_row1, ex_row2])" by (simp add: ids)
  have n2: "\<not> Map_has (row_id ''id'' ex_row2) ?prev" by (simp add: ids Map_has_def)
  then have na: "\<not> (\<forall>r\<in>set [ex_row1, ex_row2]. Map_has (row_id ''id'' r) ?prev)" by simp
  have h1: "Map_has (row_id ''id'' ex_row1) ?prev" by (simp add: ids Map_has_def)
  then have al: "\<forall>r\<in>set [ex_row1]. Map_has (row_id ''id'' r) ?prev" by simp
  have 7: "''7'' \<notin> row_id ''id'' ` set [ex_row1, ex_row2]" by (simp add: ids)
  have 2: "ex_row2 \<in> set [ex_row1, ex_row2]" by simp
  note t = handleBulkSelect_toggle_all[OF ne(1), of "''id''" ?prev, unfolded if_not_P[OF na]]
  from t d 2 have a: "Map_get ''2'' (handleBulkSelect ''id'' [ex_row1, ex_row2] ?prev) = Some ex_row2"
    unfolding ids[symmetric] by blast
  from t 7 have b: "Map_get ''7'' (handleBulkSelect ''id'' [ex_row1, ex_row2] ?prev) = Map_get ''7'' ?prev"
    by presburger
  note u = handleBulkSelect_toggle_all[OF ne(2), of "''id''" ?prev, unfolded if_P[OF al]]
  from u have c: "handleBulkSelect ''id'' [ex_row1] ?prev
           = filter (\<lambda>p. fst p \<notin> row_id ''id'' ` set [ex_row1]) ?prev"
    by blast
  show ?thesis using ne d n2 h1 a b c by (simp add: ids Map_get_def)
qed

text \<open>
  The unamended claim stores every visible row under its id. Two visible rows that share an
  id cannot both be stored: with the identifier column absent from the rows, both get the
  id \<open>undefined\<close>, and after the toggle that id maps to the second row only.
\<close>

theorem handleBulkSelect_shared_id_counterexample:
  "[ex_anon1, ex_anon2] \<noteq> []
   \<and> \<not> Map_has (row_id ''id'' ex_anon1) []
   \<and> handleBulkSelect ''id'' [ex_anon1, ex_anon2] [] = [(''undefined'', ex_anon2)]
   \<and> Map_get (row_id ''id'' ex_anon1) (handleBulkSelect ''id'' [ex_anon1, ex_anon2] []) \<noteq> Some ex_anon1"
  by code_simp

lemma handleBulkSelect_empty: "handleBulkSelect idcol [] prev = prev"
  by (simp add: handleBulkSelect_def)

lemma filter_absent_keys: "A \<inter> fst ` set m = {} \<Longrightarrow> filter (\<lambda>p. fst p \<notin> A) m = m"
  by (induction m) auto

lemma handleBulkSelect_twice_not_all:
  assumes ne: "visibleData \<noteq> []"
      and na: "\<not> (\<forall>r\<in>set visibleData. Map_has (row_id idcol r) prev)"
  shows "handleBulkSelect idcol visibleData (handleBulkSelect idcol visibleData prev)
         = filter (\<lambda>p. fst p \<notin> row_id idcol ` set visibleData) prev"
proof -
  let ?f = "row_id idcol" and ?T = "handleBulkSelect idcol visibleData"
  let ?A = "?f ` set visibleData"
  have eq: "?T prev = fold (\<lambda>r m. Map_set (?f r) r m) visibleData prev"
    using na by (rule handleBulkSelect_not_all)
  have has: "\<forall>r\<in>set visibleData. Map_has (?f r) (?T prev)"
    unfolding eq by (simp add: Map_has_fold_Map_set)
  have filt: "filter (\<lambda>p. fst p \<notin> ?A) (?T prev) = filter (\<lambda>p. fst p \<notin> ?A) prev"
    unfolding eq by (rule filter_fold_Map_set) simp
  show ?thesis
    using handleBulkSelect_all_selected[OF ne has] filt by simp
qed

lemma handleBulkSelect_twice_all:
  assumes ne: "visibleData \<noteq> []"
      and al: "\<forall>r\<in>set visibleData. Map_has (row_id idcol r) prev"
  shows "handleBulkSelect idcol visibleData (handleBulkSelect idcol visibleData prev)
         = filter (\<lambda>p. fst p \<notin> row_id idcol ` set visibleData) prev
           @ fold (\<lambda>r m. Map_set (row_id idcol r) r m) visibleData []"
proof -
  let ?f = "row_id idcol" and ?T = "handleBulkSelect idcol visibleData"
  let ?A = "?f ` set visibleData"
  have eq: "?T prev = filter (\<lambda>p. fst p \<notin> ?A) prev"
    using ne al by (rule handleBulkSelect_all_selected)
  obtain r0 where r0: "r0 \<in> set visibleData" using ne by (cases visibleData) auto
  have "\<not> Map_has (?f r0) (?T prev)" unfolding eq Map_has_def using r0 by auto
  then have na: "\<not> (\<forall>r\<in>set visibleData. Map_has (?f r) (?T prev))" using r0 by blast
  have eq2: "?T (?T prev) = fold (\<lambda>r m. Map_set (?f r) r m) visibleData (?T prev)"
    using na by (rule handleBulkSelect_not_all)
  have "?A \<inter> fst ` set (filter (\<lambda>p. fst p \<notin> ?A) prev) = {}" by auto
  then have "fold (\<lambda>r m. Map_set (?f r) r m) visibleData (filter (\<lambda>p. fst p \<notin> ?A) prev)
      = filter (\<lambda>p. fst p \<notin> ?A) prev @ fold (\<lambda>r m. Map_set (?f r) r m) visibleData []"
    by (rule fold_Map_set_append)
  then show ?thesis using eq2 eq by simp
qed

text \<open>
  Claim C5 (amended). Toggle-all applied twice with the same visible rows, for every
  selection. When the visible page is non-empty and every visible id was selected, the result
  is the original selection with the entries of the visible ids taken out of their places,
  followed by the entries that inserting the visible rows in order into an empty Map gives:
  one entry per visible row in visible order when the visible ids are pairwise distinct, and
  in general each visible id mapped to the last visible row carrying it. In every other case
  the result is the original selection without the entries of the visible ids. Hence: the
  selection is restored exactly when no visible id was selected beforehand; the entries of ids
  outside the visible page keep their rows and their order in every case; and the id-to-row
  mapping is the original one when every visible row was selected under its id with the very
  row that is visible.
\<close>

theorem handleBulkSelect_twice:
  "handleBulkSelect idcol visibleData (handleBulkSelect idcol visibleData prev)
     = (if visibleData \<noteq> [] \<and> (\<forall>r\<in>set visibleData. Map_has (row_id idcol r) prev)
        then filter (\<lambda>p. fst p \<notin> row_id idcol ` set visibleData) prev
             @ fold (\<lambda>r m. Map_set (row_id idcol r) r m) visibleData []
        else filter (\<lambda>p. fst p \<notin> row_id idcol ` set visibleData) prev)
   \<and> ((\<forall>r\<in>set visibleData. \<not> Map_has (row_id idcol r) prev) \<longrightarrow>
        handleBulkSelect idcol visibleData (handleBulkSelect idcol visibleData prev) = prev)
   \<and> (distinct (map (row_id idcol) visibleData) \<longrightarrow>
        fold (\<lambda>r m. Map_set (row_id idcol r) r m) visibleData []
          = map (\<lambda>r. (row_id idcol r, r)) visibleData)
   \<and> (\<forall>k. Map_get k (fold (\<lambda>r m. Map_set (row_id idcol r) r m) visibleData [])
          = map_of (rev (map (\<lambda>r. (row_id idcol r, r)) visibleData)) k)
   \<and> filter (\<lambda>p. fst p \<notin> row_id idcol ` set visibleData)
        (handleBulkSelect idcol visibleData (handleBulkSelect idcol visibleData prev))
      = filter (\<lambda>p. fst p \<notin> row_id idcol ` set visibleData) prev
   \<and> ((\<forall>r\<in>set visibleData. Map_get (row_id idcol r) prev = Some r) \<longrightarrow>
        (\<forall>k. Map_get k (handleBulkSelect idcol visibleData (handleBulkSelect idcol visibleData prev))
             = Map_get k prev))"
proof -
  let ?f = "row_id idcol" and ?T = "handleBulkSelect idcol visibleData"
  let ?A = "?f ` set visibleData"
  let ?E = "fold (\<lambda>r m. Map_set (?f r) r m) visibleData []"
  let ?all = "visibleData \<noteq> [] \<and> (\<forall>r\<in>set visibleData. Map_has (?f r) prev)"
  have c1: "?T (?T prev) = (if ?all then filter (\<lambda>p. fst p \<notin> ?A) prev @ ?E
                            else filter (\<lambda>p. fst p \<notin> ?A) prev)"
  proof (cases "visibleData = []")
    case True
    then show ?thesis by (simp add: handleBulkSelect_empty)
  next
    case ne: False
    show ?thesis
    proof (cases "\<forall>r\<in>set visibleData. Map_has (?f r) prev")
      case True
      then show ?thesis using ne handleBulkSelect_twice_all[OF ne True] by simp
    next
      case False
      then have na: "\<not> ?all" by blast
      show ?thesis
        by (simp only: if_not_P[OF na] handleBulkSelect_twice_not_all[OF ne False])
    qed
  qed
  have c2: "(\<forall>r\<in>set visibleData. \<not> Map_has (?f r) prev) \<longrightarrow> ?T (?T prev) = prev"
  proof
    assume none: "\<forall>r\<in>set visibleData. \<not> Map_has (?f r) prev"
    then have "\<not> ?all" by (cases visibleData) auto
    then have "?T (?T prev) = filter (\<lambda>p. fst p \<notin> ?A) prev" using c1 by presburger
    moreover have "?A \<inter> fst ` set prev = {}" using none by (auto simp: Map_has_def)
    ultimately show "?T (?T prev) = prev" by (simp add: filter_absent_keys)
  qed
  have c3: "distinct (map ?f visibleData) \<longrightarrow> ?E = map (\<lambda>r. (?f r, r)) visibleData"
    by (simp add: fold_Map_set_distinct)
  have c4: "\<forall>k. Map_get k ?E = map_of (rev (map (\<lambda>r. (?f r, r)) visibleData)) k"
    by (simp add: Map_get_def map_of_fold_Map_set)
  have keysE: "fst ` set ?E = ?A" by (simp add: keys_fold_Map_set)
  have fE: "filter (\<lambda>p. fst p \<notin> ?A) ?E = []"
    unfolding filter_empty_conv using keysE by auto
  have c5: "filter (\<lambda>p. fst p \<notin> ?A) (?T (?T prev)) = filter (\<lambda>p. fst p \<notin> ?A) prev"
    by (subst c1) (simp add: fE)
  have c6: "(\<forall>r\<in>set visibleData. Map_get (?f r) prev = Some r) \<longrightarrow>
      (\<forall>k. Map_get k (?T (?T prev)) = Map_get k prev)"
  proof (intro impI allI)
    fix k
    assume snap: "\<forall>r\<in>set visibleData. Map_get (?f r) prev = Some r"
    show "Map_get k (?T (?T prev)) = Map_get k prev"
    proof (cases "visibleData = []")
      case True
      then show ?thesis by (simp add: handleBulkSelect_empty)
    next
      case ne: False
      have al: "\<forall>r\<in>set visibleData. Map_has (?f r) prev"
        using snap by (auto simp: Map_has_iff Map_get_def)
      have eq: "?T (?T prev) = filter (\<lambda>p. fst p \<notin> ?A) prev @ ?E"
        using handleBulkSelect_twice_all[OF ne al] .
      show ?thesis
      proof (cases "k \<in> ?A")
        case False
        then have "map_of ?E k = None" using keysE by (simp add: map_of_eq_None_iff)
        then show ?thesis using False
          by (simp add: eq Map_get_def map_add_def map_of_filter_keys split: option.splits)
      next
        case True
        then obtain r where r: "map_of (rev (map (\<lambda>r. (?f r, r)) visibleData)) k = Some r"
          by (cases "map_of (rev (map (\<lambda>r. (?f r, r)) visibleData)) k")
             (auto simp: map_of_eq_None_iff image_iff)
        then have "r \<in> set visibleData \<and> ?f r = k" by (rule map_of_rev_in)
        then have "Map_get k prev = Some r" using snap by auto
        moreover have "map_of ?E k = Some r" using c4 r by (simp add: Map_get_def)
        ultimately show ?thesis using True
          by (simp add: eq Map_get_def map_add_def map_of_filter_keys split: option.splits)
      qed
    qed
  qed
  show ?thesis using c1 c2 c3 c4 c5 c6 by blast
qed

text \<open>
  The unamended claim, that two toggles always give back the original selection, fails on a
  partially selected page: with row 1 selected and rows 1 and 2 visible, the first toggle
  selects both and the second deselects both.
\<close>

theorem handleBulkSelect_twice_counterexample:
  "handleBulkSelect ''id'' [ex_row1, ex_row2] (handleBulkSelect ''id'' [ex_row1, ex_row2] [(''1'', ex_row1)])
     \<noteq> [(''1'', ex_row1)]"
  by code_simp

theorem handleBulkSelect_twice_witness:
  "\<not> Map_has (row_id ''id'' ex_row1) [] \<and> \<not> Map_has (row_id ''id'' ex_row2) []
   \<and> handleBulkSelect ''id'' [ex_row1, ex_row2] (handleBulkSelect ''id'' [ex_row1, ex_row2] []) = []
   \<and> distinct (map (row_id ''id'') [ex_row1])
   \<and> Map_get (row_id ''id'' ex_row1) [(''1'', ex_row1), (''2'', ex_row2)] = Some ex_row1
   \<and> handleBulkSelect ''id'' [ex_row1]
        (handleBulkSelect ''id'' [ex_row1] [(''1'', ex_row1), (''2'', ex_row2)])
       = [(''2'', ex_row2), (''1'', ex_row1)]
   \<and> Map_get ''1'' (handleBulkSelect ''id'' [ex_row1]
        (handleBulkSelect ''id'' [ex_row1] [(''1'', ex_row1), (''2'', ex_row2)])) = Some ex_row1"
proof -
  let ?prev = "[(''1'', ex_row1), (''2'', ex_row2)]"
  have ids: "row_id ''id'' ex_row1 = ''1''" "row_id ''id'' ex_row2 = ''2''" by code_simp+
  have n1: "\<not> Map_has (row_id ''id'' ex_row1) []" "\<not> Map_has (row_id ''id'' ex_row2) []"
    by (simp_all add: Map_has_def)
  then have h1: "\<forall>r\<in>set [ex_row1, ex_row2]. \<not> Map_has (row_id ''id'' r) []" by simp
  have d: "distinct (map (row_id ''id'') [ex_row1])" by simp
  have g: "Map_get (row_id ''id'' ex_row1) ?prev = Some ex_row1"
    by (simp add: Map_get_def ids)
  then have h2: "\<forall>r\<in>set [ex_row1]. Map_get (row_id ''id'' r) ?prev = Some r" by simp
  have al: "[ex_row1] \<noteq> [] \<and> (\<forall>r\<in>set [ex_row1]. Map_has (row_id ''id'' r) ?prev)"
    by (simp add: Map_has_def ids)
  from handleBulkSelect_twice[of "''id''" "[ex_row1, ex_row2]" "[]"] h1
  have a: "handleBulkSelect ''id'' [ex_row1, ex_row2] (handleBulkSelect ''id'' [ex_row1, ex_row2] []) = []"
    by blast
  note t = handleBulkSelect_twice[of "''id''" "[ex_row1]" ?prev, unfolded if_P[OF al]]
  from t d have e: "fold (\<lambda>r m. Map_set (row_id ''id'' r) r m) [ex_row1] []
                      = map (\<lambda>r. (row_id ''id'' r, r)) [ex_row1]" by blast
  from t have "handleBulkSelect ''id'' [ex_row1] (handleBulkSelect ''id'' [ex_row1] ?prev)
       = filter (\<lambda>p. fst p \<notin> row_id ''id'' ` set [ex_row1]) ?prev
         @ fold (\<lambda>r m. Map_set (row_id ''id'' r) r m) [ex_row1] []" by blast
  then have b: "handleBulkSelect ''id'' [ex_row1] (handleBulkSelect ''id'' [ex_row1] ?prev)
       = [(''2'', ex_row2), (''1'', ex_row1)]"
    unfolding e by (simp add: ids)
  from t h2 have "\<forall>k. Map_get k (handleBulkSelect ''id'' [ex_row1] (handleBulkSelect ''id'' [ex_row1] ?prev))
       = Map_get k ?prev" by blast
  then have c: "Map_get ''1'' (handleBulkSelect ''id'' [ex_row1] (handleBulkSelect ''id'' [ex_row1] ?prev))
       = Some ex_row1" using g by (simp add: ids)
  show ?thesis using n1 d g a b c by simp
qed

text \<open>
  Claim C10. Selecting a row id that no row of the current dataset carries leaves the
  selection and the anchor unchanged, in every selection mode; in single mode the existing
  selection is not cleared.
\<close>

theorem handleRowSelect_unknown_id:
  assumes "\<forall>r\<in>set data. row_id idcol r \<noteq> rowId"
  shows "handleRowSelect selection_mode data idcol rowId shiftKey (prev, lastSelectedRow)
         = (prev, lastSelectedRow)"
proof -
  have "find (\<lambda>r. row_id idcol r = rowId) data = None"
    using assms by (simp add: find_None_iff)
  then show ?thesis by (simp add: handleRowSelect_def)
qed

theorem handleRowSelect_unknown_id_witness:
  "row_id ''id'' ex_row1 \<noteq> ''9'' \<and> row_id ''id'' ex_row2 \<noteq> ''9''
   \<and> handleRowSelect ''single'' [ex_row1, ex_row2] ''id'' ''9'' False ([(''1'', ex_row1)], None)
       = ([(''1'', ex_row1)], None)
   \<and> handleRowSelect ''multiple'' [ex_row1, ex_row2] ''id'' ''9'' True ([(''1'', ex_row1)], Some ''1'')
       = ([(''1'', ex_row1)], Some ''1'')"
proof -
  have ids: "row_id ''id'' ex_row1 = ''1''" "row_id ''id'' ex_row2 = ''2''" by code_simp+
  have h: "\<forall>r\<in>set [ex_row1, ex_row2]. row_id ''id'' r \<noteq> ''9''" by (simp add: ids)
  show ?thesis
    using handleRowSelect_unknown_id[OF h, of "''single''" False "[(''1'', ex_row1)]" None]
      handleRowSelect_unknown_id[OF h, of "''multiple''" True "[(''1'', ex_row1)]" "Some ''1''"]
    by (simp add: ids)
qed








section \<open>Properties of the pagination view\<close>

lemma math_ceil_div_ceiling:
  "b \<noteq> 0 \<Longrightarrow> math_ceil_div a b = Some \<lceil>real_of_int a / real_of_int b\<rceil>"
  by (simp add: math_ceil_div_def ceiling_divide_eq_div)

lemma less_math_ceil_div:
  fixes a b c :: int
  assumes "0 < b"
  shows "c < - ((- a) div b) \<longleftrightarrow> c * b < a"
proof -
  have "c < \<lceil>real_of_int a / real_of_int b\<rceil> \<longleftrightarrow> real_of_int c < real_of_int a / real_of_int b"
    by (rule less_ceiling_iff)
  also have "\<dots> \<longleftrightarrow> real_of_int c * real_of_int b < real_of_int a"
    using assms by (simp add: pos_less_divide_eq)
  also have "\<dots> \<longleftrightarrow> c * b < a"
    by (metis of_int_less_iff of_int_mult)
  finally show ?thesis by (simp add: ceiling_divide_eq_div)
qed

text \<open>
  Claim C2 (amended). Server pagination, for a row count and a page size that are safe
  integers; the page size is \<open>serverPaginationData.pageSize\<close>, or the configured page size
  when that is absent. The rendered page count is the ceiling of row count over page size, and
  zero when the page size is zero (the quotient is then not finite). The rendered current page
  is \<open>serverPaginationData.currentPage\<close>, zero when absent, passed through as it is: for a
  positive page size it is below the page count exactly when current page times page size is
  below the row count.
\<close>

theorem server_pagination_result:
  assumes "\<bar>rowCount\<bar> < 2 ^ 53"
      and "\<bar>nullish_or (opt_field spd_pageSize spd) initialPageSize\<bar> < 2 ^ 53"
  shows "resultPageCount (pagination_result True rowCount spd initialPageSize pageSizeOptions tc ts ti)
     = (if nullish_or (opt_field spd_pageSize spd) initialPageSize = 0 then 0
        else \<lceil>real_of_int rowCount / real_of_int (nullish_or (opt_field spd_pageSize spd) initialPageSize)\<rceil>)
   \<and> resultCurrentPage (pagination_result True rowCount spd initialPageSize pageSizeOptions tc ts ti)
     = nullish_or (opt_field spd_currentPage spd) 0
   \<and> (0 < nullish_or (opt_field spd_pageSize spd) initialPageSize \<longrightarrow>
        (resultCurrentPage (pagination_result True rowCount spd initialPageSize pageSizeOptions tc ts ti)
           < resultPageCount (pagination_result True rowCount spd initialPageSize pageSizeOptions tc ts ti)
         \<longleftrightarrow> nullish_or (opt_field spd_currentPage spd) 0
               * nullish_or (opt_field spd_pageSize spd) initialPageSize < rowCount))"
proof -
  let ?s = "nullish_or (opt_field spd_pageSize spd) initialPageSize"
  let ?v = "pagination_result True rowCount spd initialPageSize pageSizeOptions tc ts ti"
  have pcnt: "resultPageCount ?v = (case math_ceil_div rowCount ?s of None \<Rightarrow> 0 | Some n \<Rightarrow> n)"
    by (simp add: pagination_result_def Let_def)
  have cur: "resultCurrentPage ?v = nullish_or (opt_field spd_currentPage spd) 0"
    by (simp add: pagination_result_def Let_def)
  have 1: "resultPageCount ?v = (if ?s = 0 then 0 else \<lceil>real_of_int rowCount / real_of_int ?s\<rceil>)"
    unfolding pcnt by (simp add: math_ceil_div_def ceiling_divide_eq_div)
  have 3: "0 < ?s \<longrightarrow> (resultCurrentPage ?v < resultPageCount ?v
             \<longleftrightarrow> nullish_or (opt_field spd_currentPage spd) 0 * ?s < rowCount)"
    unfolding pcnt cur by (simp add: math_ceil_div_def less_math_ceil_div)
  show ?thesis using 1 cur 3 by blast
qed

text \<open>
  The unamended claim has the rendered current page below the page count whenever there are
  rows. With 30 rows, page size 10 and the stored page index 5, the pagination bar is rendered
  with 3 pages and current page 5.
\<close>

theorem server_pagination_result_counterexample:
  "(0::int) < 30
   \<and> renders_pagination 10 30 (pagination_result True 30 (Some ex_spd) 10 [(10, ''10''), (20, ''20'')] 3 10 0)
   \<and> resultPageCount (pagination_result True 30 (Some ex_spd) 10 [(10, ''10''), (20, ''20'')] 3 10 0) = 3
   \<and> resultCurrentPage (pagination_result True 30 (Some ex_spd) 10 [(10, ''10''), (20, ''20'')] 3 10 0) = 5
   \<and> \<not> (resultCurrentPage (pagination_result True 30 (Some ex_spd) 10 [(10, ''10''), (20, ''20'')] 3 10 0)
          < resultPageCount (pagination_result True 30 (Some ex_spd) 10 [(10, ''10''), (20, ''20'')] 3 10 0))"
  by (simp add: pagination_result_def renders_pagination_def ex_spd_def nullish_or_def opt_field_def
      math_ceil_div_def Let_def)

theorem server_pagination_result_witness:
  "\<bar>25::int\<bar> < 2 ^ 53
   \<and> \<bar>nullish_or (opt_field spd_pageSize (Some \<lparr> spd_pageSize = Some 10, spd_currentPage = Some 2 \<rparr>)) 0\<bar> < 2 ^ 53
   \<and> 0 < nullish_or (opt_field spd_pageSize (Some \<lparr> spd_pageSize = Some 10, spd_currentPage = Some 2 \<rparr>)) 0
   \<and> resultPageCount (pagination_result True 25 (Some \<lparr> spd_pageSize = Some 10, spd_currentPage = Some 2 \<rparr>) 0 [] 0 0 0) = 3
   \<and> resultCurrentPage (pagination_result True 25 (Some \<lparr> spd_pageSize = Some 10, spd_currentPage = Some 2 \<rparr>) 0 [] 0 0 0) = 2
   \<and> resultCurrentPage (pagination_result True 25 (Some \<lparr> spd_pageSize = Some 10, spd_currentPage = Some 2 \<rparr>) 0 [] 0 0 0)
      < resultPageCount (pagination_result True 25 (Some \<lparr> spd_pageSize = Some 10, spd_currentPage = Some 2 \<rparr>) 0 [] 0 0 0)"
proof -
  let ?spd = "Some \<lparr> spd_pageSize = Some 10, spd_currentPage = Some 2 \<rparr>"
  have s: "nullish_or (opt_field spd_pageSize ?spd) 0 = 10" "nullish_or (opt_field spd_currentPage ?spd) 0 = 2"
    by (simp_all add: nullish_or_def opt_field_def)
  have a: "\<bar>25::int\<bar> < 2 ^ 53" by simp
  have b: "\<bar>nullish_or (opt_field spd_pageSize ?spd) 0\<bar> < 2 ^ 53" unfolding s by simp
  have c: "\<lceil>real_of_int 25 / real_of_int 10\<rceil> = 3" by (simp add: ceiling_divide_eq_div)
  show ?thesis
    using a b server_pagination_result[OF a b, of "[]" 0 0 0] c unfolding s by simp
qed

section \<open>Properties of the event dedupe\<close>

lemma SerializeJSONProperty_JObj:
  "SerializeJSONProperty (JObj ps) = (case stringify_object ps of None \<Rightarrow> Throws | Some s \<Rightarrow> Text s)"
  by (simp add: stringify_object_def split: option.splits)

lemma SerializeJSONProperty_JArr:
  "SerializeJSONProperty (JArr xs) = (case stringify_array xs of None \<Rightarrow> Throws | Some s \<Rightarrow> Text s)"
  by (simp add: stringify_array_def split: option.splits)

lemma member_falsy: "falsy v \<Longrightarrow> member k v = JUndefined"
  by (auto simp: falsy_def member_def)

lemma makeEventKey_fields:
  "makeEventKey clock msg =
     (case stringify_object
             [(''action'', member ''action'' msg), (''chartId'', member ''chartId'' msg),
              (''actionType'', member ''actionType'' msg), (''values'', member ''values'' msg)] of
        Some keyPayload \<Rightarrow> keyPayload
      | None \<Rightarrow> show_int clock)"
proof (cases "falsy msg")
  case True
  then have "member k msg = member k (JObj [])" for k
    by (simp add: member_falsy) (simp add: member_def get_prop_def)
  then show ?thesis using True by (simp add: makeEventKey_def Let_def)
next
  case False
  then show ?thesis by (simp add: makeEventKey_def Let_def)
qed

text \<open>
  Claim C8 (amended). Two messages whose fields \<open>action\<close>, \<open>chartId\<close>, \<open>actionType\<close> and
  \<open>values\<close> are equal as values, nested objects compared together with the order of their
  properties, get the same fingerprint at the same clock reading, whatever the order of the
  messages' own properties and whatever their other fields. The fingerprint is the JSON text
  of the object holding those four fields in that order; when serializing throws, it is the
  clock reading.
\<close>

theorem makeEventKey_depends_on_four_fields:
  assumes "member ''action'' m1 = member ''action'' m2"
      and "member ''chartId'' m1 = member ''chartId'' m2"
      and "member ''actionType'' m1 = member ''actionType'' m2"
      and "member ''values'' m1 = member ''values'' m2"
  shows "makeEventKey clock m1 = makeEventKey clock m2
       \<and> makeEventKey clock m1 =
           (case stringify_object
                   [(''action'', member ''action'' m1), (''chartId'', member ''chartId'' m1),
                    (''actionType'', member ''actionType'' m1), (''values'', member ''values'' m1)] of
              Some keyPayload \<Rightarrow> keyPayload
            | None \<Rightarrow> show_int clock)"
  using assms by (simp add: makeEventKey_fields)

theorem makeEventKey_depends_on_four_fields_witness:
  "member ''action'' ex_msg = member ''action'' ex_msg_shuffled
   \<and> member ''chartId'' ex_msg = member ''chartId'' ex_msg_shuffled
   \<and> member ''actionType'' ex_msg = member ''actionType'' ex_msg_shuffled
   \<and> member ''values'' ex_msg = member ''values'' ex_msg_shuffled
   \<and> ex_msg \<noteq> ex_msg_shuffled
   \<and> makeEventKey 5 ex_msg = makeEventKey 5 ex_msg_shuffled"
proof -
  have a: "member ''action'' ex_msg = member ''action'' ex_msg_shuffled"
    and b: "member ''chartId'' ex_msg = member ''chartId'' ex_msg_shuffled"
    and c: "member ''actionType'' ex_msg = member ''actionType'' ex_msg_shuffled"
    and d: "member ''values'' ex_msg = member ''values'' ex_msg_shuffled"
    by (simp_all add: member_def get_prop_def ex_msg_def ex_msg_shuffled_def)
  have e: "ex_msg \<noteq> ex_msg_shuffled" by (simp add: ex_msg_def ex_msg_shuffled_def)
  show ?thesis
    using a b c d e makeEventKey_depends_on_four_fields[OF a b c d, of 5] by simp
qed

text \<open>
  The unamended claim makes the fingerprint independent of the order in which object
  properties appear. That holds for the message itself, not for the objects inside \<open>values\<close>:
  two messages that differ only in the order of the two properties of the one selected row
  get different fingerprints.
\<close>

theorem makeEventKey_nested_order_counterexample:
  "member ''action'' ex_msg = member ''action'' ex_msg_row_reordered
   \<and> member ''chartId'' ex_msg = member ''chartId'' ex_msg_row_reordered
   \<and> member ''actionType'' ex_msg = member ''actionType'' ex_msg_row_reordered
   \<and> member ''values'' ex_msg = JArr [JObj [(''id'', JNum 1), (''name'', JStr ''a'')]]
   \<and> member ''values'' ex_msg_row_reordered = JArr [JObj [(''name'', JStr ''a''), (''id'', JNum 1)]]
   \<and> set [(''id'', JNum 1), (''name'', JStr ''a'')] = set [(''name'', JStr ''a''), (''id'', JNum 1)]
   \<and> makeEventKey 0 ex_msg \<noteq> makeEventKey 0 ex_msg_row_reordered"
proof -
  have "makeEventKey 0 ex_msg \<noteq> makeEventKey 0 ex_msg_row_reordered" by code_simp
  moreover have "set [(''id'', JNum 1), (''name'', JStr ''a'')] = set [(''name'', JStr ''a''), (''id'', JNum 1)]"
    by auto
  ultimately show ?thesis
    by (simp add: member_def get_prop_def ex_msg_def ex_msg_row_reordered_def)
qed

subsection \<open>Sending and suppressing\<close>

lemma map_of_filter_kept:
  "map_of xs k = Some v \<Longrightarrow> P (k, v) \<Longrightarrow> map_of (filter P xs) k = Some v"
  by (induction xs) (auto split: if_splits)

lemma map_of_Map_set_same: "map_of (Map_set k v m) k = Some v"
  by (induction m) auto

lemma shouldSendMessage_disabled:
  "\<not> dedupeEnabled \<or> ttl \<le> 0 \<Longrightarrow>
     shouldSendMessage dedupeEnabled ttl clock now msg recentEvents = (True, recentEvents)"
  by (auto simp: shouldSendMessage_def)

lemma shouldSendMessage_suppressed:
  assumes "0 < ttl" and "Map_get (makeEventKey clock msg) recentEvents = Some t"
      and "now - t < ttl"
  shows "shouldSendMessage True ttl clock now msg recentEvents = (False, recentEvents)"
  using assms by (simp add: shouldSendMessage_def Let_def)

lemma shouldSendMessage_delivered:
  assumes "0 < ttl" and "ttl \<le> now"
      and "\<forall>t. Map_get (makeEventKey clock msg) recentEvents = Some t \<longrightarrow> \<not> now - t < ttl"
  shows "fst (shouldSendMessage True ttl clock now msg recentEvents)
       \<and> Map_get (makeEventKey clock msg) (snd (shouldSendMessage True ttl clock now msg recentEvents))
           = Some now"
proof -
  let ?key = "makeEventKey clock msg"
  let ?t0 = "case Map_get ?key recentEvents of None \<Rightarrow> 0 | Some t \<Rightarrow> t"
  have nl: "\<not> now - ?t0 < ttl"
    using assms by (cases "Map_get ?key recentEvents") auto
  let ?stored = "Map_set ?key now recentEvents"
  have s: "map_of ?stored ?key = Some now" by (rule map_of_Map_set_same)
  have "map_of (filter (\<lambda>p. \<not> snd p < now - ttl) ?stored) ?key = Some now"
    using s assms(1) by (intro map_of_filter_kept) auto
  then show ?thesis using nl s assms(1)
    by (simp add: shouldSendMessage_def Let_def Map_get_def)
qed

text \<open>
  Claim C1. With dedupe enabled by default and the configured TTL \<open>9007199254740991\<close> (the
  largest safe integer), the first message ever sent, at \<open>Date.now() = 1762000000000\<close> and
  with nothing recorded, is suppressed and nothing is recorded: a fingerprint that was never
  sent reads as sent at time zero, which is less than TTL milliseconds ago whenever the TTL
  exceeds the clock. The lemmas before this theorem give the behaviour the claim describes:
  always \<open>true\<close> when dedupe is off or the TTL is not positive, \<open>false\<close> without an update
  when the fingerprint was recorded less than TTL ago, and otherwise, for a TTL that does not
  exceed the clock, \<open>true\<close> with the current time recorded.
\<close>

theorem shouldSendMessage_first_message_suppressed:
  "getRemitaDedupeEnabled JUndefined None
   \<and> DEDUPE_TTL_MS JUndefined None (JNum 9007199254740991) = 9007199254740991
   \<and> Map_get (makeEventKey 0 ex_msg) [] = None
   \<and> shouldSendMessage (getRemitaDedupeEnabled JUndefined None)
        (DEDUPE_TTL_MS JUndefined None (JNum 9007199254740991)) 0 1762000000000 ex_msg []
      = (False, [])"
  by (simp add: getRemitaDedupeEnabled_def DEDUPE_TTL_MS_def getRemitaDedupeTtlMs_def
      shouldSendMessage_def Map_get_def Let_def)

theorem shouldSendMessage_first_message_suppressed_witness:
  "\<not> fst (shouldSendMessage True 9007199254740991 0 1762000000000 ex_msg [])
   \<and> snd (shouldSendMessage True 9007199254740991 0 1762000000000 ex_msg []) = []"
proof -
  have e: "getRemitaDedupeEnabled JUndefined None = True"
    by (simp add: getRemitaDedupeEnabled_def)
  from shouldSendMessage_first_message_suppressed
  have t: "DEDUPE_TTL_MS JUndefined None (JNum 9007199254740991) = 9007199254740991"
    and r: "shouldSendMessage (getRemitaDedupeEnabled JUndefined None)
        (DEDUPE_TTL_MS JUndefined None (JNum 9007199254740991)) 0 1762000000000 ex_msg []
      = (False, [])" by blast+
  show ?thesis using r unfolding t e by simp
qed

section \<open>Properties of the visibility conditions\<close>


lemma js_compare_strings:
  "js_loose_eq (JStr s) (JStr t) = (s = t)"
  "js_lt (JStr s) (JStr t) = (s < t)"
  "js_gt (JStr s) (JStr t) = (s > t)"
  "js_le (JStr s) (JStr t) = (s \<le> t)"
  "js_ge (JStr s) (JStr t) = (s \<ge> t)"
  by (auto simp: js_loose_eq_def js_lt_def js_gt_def js_le_def js_ge_def IsLessThan_def
      to_primitive_def nullish_def is_object_def)





section \<open>The parser inverts the serializer\<close>

subsection \<open>Strings\<close>

lemma hex_value_hex_digit: "d < 16 \<Longrightarrow> hex_value (hex_digit d) = Some d"
  by (auto simp: hex_value_def hex_digit_def Let_def)

lemma hex_value_zero: "hex_value (CHR ''0'') = Some 0"
  by (simp add: hex_value_def)

lemma char_of_of_char_nat: "char_of (of_char c :: nat) = c"
  by simp

lemma parse_chars_escape:
  "parse_chars (json_escape c @ t) =
     (case parse_chars t of None \<Rightarrow> None | Some (s, r) \<Rightarrow> Some (c # s, r))"
proof -
  let ?n = "of_char c :: nat"
  have c: "c = char_of ?n" by simp
  consider (b) "?n = 8" | (t) "?n = 9" | (n) "?n = 10" | (f) "?n = 12" | (r) "?n = 13"
    | (q) "c = dquote" | (s) "c = bslash"
    | (ctl) "?n < 32" "?n \<notin> {8, 9, 10, 12, 13}"
    | (plain) "?n \<ge> 32" "c \<noteq> dquote" "c \<noteq> bslash"
    by fastforce
  then show ?thesis
  proof cases
    case b
    then have "c = char_of (8::nat)" using c by simp
    then show ?thesis
      by (simp add: json_escape_def unescape_def dquote_def bslash_def split: option.splits)
  next
    case t
    then have "c = char_of (9::nat)" using c by simp
    then show ?thesis
      by (simp add: json_escape_def unescape_def dquote_def bslash_def split: option.splits)
  next
    case n
    then have "c = char_of (10::nat)" using c by simp
    then show ?thesis
      by (simp add: json_escape_def unescape_def dquote_def bslash_def split: option.splits)
  next
    case f
    then have "c = char_of (12::nat)" using c by simp
    then show ?thesis
      by (simp add: json_escape_def unescape_def dquote_def bslash_def split: option.splits)
  next
    case r
    then have "c = char_of (13::nat)" using c by simp
    then show ?thesis
      by (simp add: json_escape_def unescape_def dquote_def bslash_def split: option.splits)
  next
    case q
    then show ?thesis
      by (simp add: json_escape_def unescape_def dquote_def bslash_def split: option.splits)
  next
    case s
    then show ?thesis
      by (simp add: json_escape_def unescape_def dquote_def bslash_def split: option.splits)
  next
    case ctl
    have ne: "c \<noteq> dquote" "c \<noteq> bslash" using ctl(1) by (auto simp: dquote_def bslash_def)
    have esc: "json_escape c = [bslash, CHR ''u'', CHR ''0'', CHR ''0'', hex_digit (?n div 16), hex_digit (?n mod 16)]"
      using ctl ne by (simp add: json_escape_def Let_def)
    have h: "hex_value (hex_digit (?n div 16)) = Some (?n div 16)"
            "hex_value (hex_digit (?n mod 16)) = Some (?n mod 16)"
      using ctl(1) by (simp_all add: hex_value_hex_digit)
    have rt: "char_of (16 * (?n div 16) + ?n mod 16) = c" by simp
    show ?thesis unfolding esc
      by (simp add: h hex_value_zero rt bslash_def dquote_def split: option.splits)
  next
    case plain
    then have "json_escape c = [c]" by (auto simp: json_escape_def Let_def)
    then show ?thesis using plain by (simp split: option.splits)
  qed
qed

lemma parse_chars_quoted:
  "parse_chars (concat (map json_escape s) @ dquote # rest) = Some (s, rest)"
  by (induction s) (simp_all add: parse_chars_escape)

subsection \<open>Numerals\<close>

lemma of_char_digit_char: "d < 10 \<Longrightarrow> (of_char (digit_char d) :: nat) = 48 + d"
  by (simp add: digit_char_def)

lemma is_digit_digit_char: "d < 10 \<Longrightarrow> is_digit (digit_char d)"
  by (simp add: is_digit_def of_char_digit_char)

lemma show_nat_digits: "list_all is_digit (show_nat n) \<and> show_nat n \<noteq> []"
proof (induction n rule: show_nat.induct)
  case (1 n)
  show ?case
  proof (cases "n < 10")
    case True
    then show ?thesis by (subst show_nat.simps, subst (2) show_nat.simps) (simp add: is_digit_digit_char)
  next
    case False
    then show ?thesis using 1
      by (subst show_nat.simps, subst (2) show_nat.simps) (simp add: is_digit_digit_char)
  qed
qed

lemma digits_value_snoc:
  "digits_value (ds @ [c]) = 10 * digits_value ds + ((of_char c :: nat) - 48)"
  by (simp add: digits_value_def)

lemma digits_value_show_nat: "digits_value (show_nat n) = n"
proof (induction n rule: show_nat.induct)
  case (1 n)
  show ?case
  proof (cases "n < 10")
    case True
    then show ?thesis
      by (subst show_nat.simps) (simp add: digits_value_def of_char_digit_char)
  next
    case False
    then have "digits_value (show_nat (n div 10)) = n div 10" using 1 by simp
    then show ?thesis using False
      by (subst show_nat.simps) (simp add: digits_value_snoc of_char_digit_char)
  qed
qed

lemma hd_show_nat: "0 < n \<Longrightarrow> take 1 (show_nat n) \<noteq> ''0''"
proof (induction n rule: show_nat.induct)
  case (1 n)
  show ?case
  proof (cases "n < 10")
    case True
    then have "show_nat n = [digit_char n]" by (subst show_nat.simps) simp
    moreover have "digit_char n \<noteq> CHR ''0''"
    proof
      assume "digit_char n = CHR ''0''"
      then have "(of_char (digit_char n) :: nat) = of_char (CHR ''0'')" by simp
      then show False using True "1.prems" by (simp add: of_char_digit_char)
    qed
    ultimately show ?thesis by simp
  next
    case False
    then have "0 < n div 10" by simp
    then have ih: "take 1 (show_nat (n div 10)) \<noteq> ''0''" using 1 False by simp
    have ne: "show_nat (n div 10) \<noteq> []" using show_nat_digits by blast
    have "show_nat n = show_nat (n div 10) @ [digit_char (n mod 10)]"
      using False by (subst show_nat.simps) simp
    then show ?thesis using ih ne by (cases "show_nat (n div 10)") auto
  qed
qed

lemma show_nat_zero: "show_nat 0 = ''0''"
  by code_simp

lemma show_nat_no_leading_zero: "\<not> (length (show_nat n) > 1 \<and> take 1 (show_nat n) = ''0'')"
proof (cases "n = 0")
  case True
  then show ?thesis by (simp add: show_nat_zero)
next
  case False
  then show ?thesis using hd_show_nat[of n] by simp
qed

lemma not_digit_delim: "delim rest \<Longrightarrow> takeWhile is_digit rest = [] \<and> dropWhile is_digit rest = rest"
  by (cases rest) (auto simp: delim_def is_digit_def)

lemma parse_number_digits:
  assumes "delim rest"
  shows "takeWhile is_digit (show_nat n @ rest) = show_nat n"
    and "dropWhile is_digit (show_nat n @ rest) = rest"
proof -
  have all: "\<And>x. x \<in> set (show_nat n) \<Longrightarrow> is_digit x"
    using show_nat_digits[of n] by (simp add: list_all_iff)
  show "takeWhile is_digit (show_nat n @ rest) = show_nat n"
    using all not_digit_delim[OF assms] by (simp add: takeWhile_append2)
  show "dropWhile is_digit (show_nat n @ rest) = rest"
    using all not_digit_delim[OF assms] by (simp add: dropWhile_append2)
qed

lemma delim_not_fraction:
  "delim rest \<Longrightarrow> \<not> (case rest of [] \<Rightarrow> False | c # cs \<Rightarrow> c = CHR ''.'' \<or> c = CHR ''e'' \<or> c = CHR ''E'')"
  by (cases rest) (auto simp: delim_def)

lemma hd_show_nat_not_minus: "show_nat n = c # cs \<Longrightarrow> c \<noteq> CHR ''-''"
proof -
  assume a: "show_nat n = c # cs"
  have "is_digit c" using show_nat_digits[of n] a by simp
  then show ?thesis by (auto simp: is_digit_def)
qed

lemma parse_number_show_int:
  assumes "delim rest"
  shows "parse_number (show_int i @ rest) = Some (i, rest)"
proof (cases "i < 0")
  case True
  let ?n = "nat (- i)"
  have s: "show_int i @ rest = CHR ''-'' # (show_nat ?n @ rest)" using True by (simp add: show_int_def)
  have ne: "show_nat ?n \<noteq> []" using show_nat_digits by blast
  show ?thesis unfolding s parse_number_def
    using True ne show_nat_no_leading_zero[of ?n] delim_not_fraction[OF assms]
    by (simp add: parse_number_digits[OF assms] digits_value_show_nat Let_def)
next
  case False
  let ?n = "nat i"
  have s: "show_int i @ rest = show_nat ?n @ rest" using False by (simp add: show_int_def)
  obtain c cs where cs: "show_nat ?n = c # cs" using show_nat_digits[of ?n] by (cases "show_nat ?n") auto
  have nm: "c \<noteq> CHR ''-''" using cs by (rule hd_show_nat_not_minus)
  have neg: "(case show_nat ?n @ rest of [] \<Rightarrow> False | c # cs \<Rightarrow> c = CHR ''-'') = False"
    using cs nm by simp
  have ne: "show_nat ?n \<noteq> []" using cs by simp
  show ?thesis unfolding s parse_number_def neg
    using False ne show_nat_no_leading_zero[of ?n] delim_not_fraction[OF assms]
    by (simp add: parse_number_digits[OF assms] digits_value_show_nat Let_def)
qed

subsection \<open>Serialized JSON data\<close>

lemma arr_items_texts:
  "\<forall>x\<in>set xs. SerializeJSONProperty x = Text (jtext x) \<Longrightarrow>
     arr_items (map SerializeJSONProperty xs) = Some (map jtext xs)"
  by (induction xs) simp_all

lemma obj_members_texts:
  "\<forall>p\<in>set ps. SerializeJSONProperty (snd p) = Text (jtext (snd p)) \<Longrightarrow>
     obj_members (map (\<lambda>p. (fst p, SerializeJSONProperty (snd p))) ps)
       = Some (map (\<lambda>p. json_quote (fst p) @ '':'' @ jtext (snd p)) ps)"
proof (induction ps)
  case Nil
  show ?case by simp
next
  case (Cons p ps)
  obtain k v where p: "p = (k, v)" by (cases p)
  show ?case using Cons by (simp add: p)
qed

lemma serialize_json_data: "json_data v \<Longrightarrow> SerializeJSONProperty v = Text (jtext v)"
proof (induction v)
  case (JArr xs)
  then have "\<forall>x\<in>set xs. SerializeJSONProperty x = Text (jtext x)" by (simp add: list_all_iff)
  then have a: "arr_items (map SerializeJSONProperty xs) = Some (map jtext xs)"
    by (rule arr_items_texts)
  show ?case unfolding jtext_def[of "JArr xs"] by (simp add: a)
next
  case (JObj ps)
  then have "\<forall>p\<in>set ps. SerializeJSONProperty (snd p) = Text (jtext (snd p))"
    by (auto simp: list_all_iff snds.simps)
  then have a: "obj_members (map (\<lambda>p. (fst p, SerializeJSONProperty (snd p))) ps)
       = Some (map (\<lambda>p. json_quote (fst p) @ '':'' @ jtext (snd p)) ps)"
    by (rule obj_members_texts)
  show ?case unfolding jtext_def[of "JObj ps"] by (simp add: a)
next
  case JUndefined then show ?case by simp
next
  case JNull show ?case by (simp add: jtext_def)
next
  case (JBool b) show ?case by (simp add: jtext_def)
next
  case (JNum i) show ?case by (simp add: jtext_def)
next
  case (JBigInt i) then show ?case by simp
next
  case (JStr s) show ?case by (simp add: jtext_def)
next
  case (JDate ms isoStr tx) then show ?case by simp
qed

lemma jtext_JArr:
  assumes "list_all json_data xs"
  shows "jtext (JArr xs) = ''['' @ intercalate '','' (map jtext xs) @ '']''"
proof -
  have "\<forall>x\<in>set xs. SerializeJSONProperty x = Text (jtext x)"
    using assms serialize_json_data by (auto simp: list_all_iff)
  then have a: "arr_items (map SerializeJSONProperty xs) = Some (map jtext xs)"
    by (rule arr_items_texts)
  show ?thesis unfolding jtext_def[of "JArr xs"] by (simp add: a)
qed

lemma jtext_JObj:
  assumes "list_all (\<lambda>p. json_data (snd p)) ps"
  shows "jtext (JObj ps)
         = ''{'' @ intercalate '','' (map (\<lambda>p. json_quote (fst p) @ '':'' @ jtext (snd p)) ps) @ ''}''"
proof -
  have "\<forall>p\<in>set ps. SerializeJSONProperty (snd p) = Text (jtext (snd p))"
    using assms serialize_json_data by (auto simp: list_all_iff)
  then have a: "obj_members (map (\<lambda>p. (fst p, SerializeJSONProperty (snd p))) ps)
       = Some (map (\<lambda>p. json_quote (fst p) @ '':'' @ jtext (snd p)) ps)"
    by (rule obj_members_texts)
  show ?thesis unfolding jtext_def[of "JObj ps"] by (simp add: a)
qed

lemma jtext_simps:
  "jtext JNull = ''null''"
  "jtext (JBool b) = (if b then ''true'' else ''false'')"
  "jtext (JNum i) = show_int i"
  "jtext (JStr s) = json_quote s"
  by (simp_all add: jtext_def)

lemma show_int_head: "\<exists>c cs. show_int i = c # cs \<and> (is_digit c \<or> c = CHR ''-'')"
proof (cases "i < 0")
  case True
  then show ?thesis by (simp add: show_int_def)
next
  case False
  obtain c cs where "show_nat (nat i) = c # cs" using show_nat_digits[of "nat i"]
    by (cases "show_nat (nat i)") auto
  moreover from this have "is_digit c" using show_nat_digits[of "nat i"] by simp
  ultimately show ?thesis using False by (simp add: show_int_def)
qed

lemma starts_value_jtext: "json_data v \<Longrightarrow> starts_value (jtext v @ rest)"
proof (cases v)
  case (JNum i)
  obtain c cs where "show_int i = c # cs" "is_digit c \<or> c = CHR ''-''" using show_int_head by blast
  then show ?thesis using JNum
    by (auto simp: jtext_simps starts_value_def json_ws_def is_digit_def)
next
  case (JArr xs)
  assume "json_data v"
  then show ?thesis using JArr by (simp add: jtext_JArr starts_value_def json_ws_def)
next
  case (JObj ps)
  assume "json_data v"
  then show ?thesis using JObj by (simp add: jtext_JObj starts_value_def json_ws_def)
qed (auto simp: jtext_simps starts_value_def json_ws_def json_quote_def dquote_def)

lemma skip_ws_starts_value: "starts_value t \<Longrightarrow> skip_ws t = t"
  by (cases t) (auto simp: starts_value_def skip_ws_def)

lemma skip_ws_delim: "delim t \<Longrightarrow> skip_ws t = t"
  by (cases t) (auto simp: delim_def skip_ws_def json_ws_def)

subsection \<open>Parsing a serialized value gives the value back\<close>

lemma Map_of_entries_distinct: "distinct (map fst ps) \<Longrightarrow> Map_of_entries ps = ps"
proof -
  have "distinct (map fst ps) \<Longrightarrow> fold (\<lambda>(k, v). Map_set k v) ps [] = ps"
  proof (induction ps rule: rev_induct)
    case Nil
    show ?case by simp
  next
    case (snoc p ps)
    obtain k v where p: "p = (k, v)" by (cases p)
    have "k \<notin> set (map fst ps)" using snoc.prems p by auto
    then show ?case using snoc p by (simp add: Map_set_absent)
  qed
  then show "distinct (map fst ps) \<Longrightarrow> Map_of_entries ps = ps" by (simp add: Map_of_entries_def)
qed

lemma skip_ws_punct:
  "skip_ws (CHR '','' # t) = CHR '','' # t"
  "skip_ws (CHR '']'' # t) = CHR '']'' # t"
  "skip_ws (CHR ''}'' # t) = CHR ''}'' # t"
  "skip_ws (CHR '':'' # t) = CHR '':'' # t"
  "skip_ws (dquote # t) = dquote # t"
  by (simp_all add: skip_ws_def json_ws_def dquote_def)

lemma delim_punct:
  "delim (CHR '','' # t)" "delim (CHR '']'' # t)" "delim (CHR ''}'' # t)" "delim []"
  by (simp_all add: delim_def)

lemma parse_elements_texts:
  assumes "\<forall>x\<in>set xs. json_data x \<and>
             (\<forall>n rest. jsize x < n \<longrightarrow> delim rest \<longrightarrow> parse_value n (jtext x @ rest) = Some (x, rest))"
      and "xs \<noteq> []"
      and "sum_list (map (\<lambda>x. Suc (jsize x)) xs) < m"
  shows "parse_elements m (intercalate '','' (map jtext xs) @ '']'' @ rest) = Some (xs, rest)"
  using assms
proof (induction xs arbitrary: m)
  case Nil
  then show ?case by simp
next
  case (Cons x xs)
  obtain m' where m: "m = Suc m'" using Cons.prems(3) by (cases m) auto
  have fx: "jsize x < m'" using Cons.prems(3) m by simp
  have px: "\<And>r. delim r \<Longrightarrow> parse_value m' (jtext x @ r) = Some (x, r)"
    using Cons.prems(1) fx by simp
  show ?case
  proof (cases xs)
    case Nil
    have d: "delim (CHR '']'' # rest)" by (simp add: delim_def)
    show ?thesis using Nil m px[OF d] by (simp add: skip_ws_punct)
  next
    case (Cons y ys)
    let ?tail = "intercalate '','' (map jtext xs) @ '']'' @ rest"
    have d: "delim (CHR '','' # ?tail)" by (simp add: delim_def)
    have tx: "intercalate '','' (map jtext (x # xs)) @ '']'' @ rest = jtext x @ (CHR '','' # ?tail)"
      using Cons by simp
    have ih: "parse_elements m' ?tail = Some (xs, rest)"
    proof (rule Cons.IH)
      show "\<forall>x\<in>set xs. json_data x \<and>
             (\<forall>n rest. jsize x < n \<longrightarrow> delim rest \<longrightarrow> parse_value n (jtext x @ rest) = Some (x, rest))"
        using Cons.prems(1) by simp
      show "xs \<noteq> []" using Cons by simp
      show "sum_list (map (\<lambda>x. Suc (jsize x)) xs) < m'" using Cons.prems(3) m by simp
    qed
    show ?thesis unfolding tx m
      using px[OF d] ih by (simp add: skip_ws_punct)
  qed
qed

lemma parse_members_texts:
  assumes "\<forall>p\<in>set ps. json_data (snd p) \<and>
             (\<forall>n rest. jsize (snd p) < n \<longrightarrow> delim rest \<longrightarrow>
                 parse_value n (jtext (snd p) @ rest) = Some (snd p, rest))"
      and "ps \<noteq> []"
      and "sum_list (map (\<lambda>p. Suc (jsize (snd p))) ps) < m"
  shows "parse_members m
           (intercalate '','' (map (\<lambda>p. json_quote (fst p) @ '':'' @ jtext (snd p)) ps) @ ''}'' @ rest)
         = Some (ps, rest)"
  using assms
proof (induction ps arbitrary: m)
  case Nil
  then show ?case by simp
next
  case (Cons p ps)
  obtain k v where p: "p = (k, v)" by (cases p)
  obtain m' where m: "m = Suc m'" using Cons.prems(3) by (cases m) auto
  have fv: "jsize v < m'" using Cons.prems(3) m p by simp
  have pv: "\<And>r. delim r \<Longrightarrow> parse_value m' (jtext v @ r) = Some (v, r)"
    using Cons.prems(1) fv p by simp
  let ?mt = "\<lambda>p. json_quote (fst p) @ '':'' @ jtext (snd p)"
  have key: "\<And>t. skip_ws (json_quote k @ t) = json_quote k @ t"
    by (simp add: json_quote_def skip_ws_def json_ws_def dquote_def)
  have q: "\<And>t. json_quote k @ t = dquote # (concat (map json_escape k) @ dquote # t)"
    by (simp add: json_quote_def)
  show ?case
  proof (cases ps)
    case Nil
    have d: "delim (CHR ''}'' # rest)" by (simp add: delim_def)
    have tx: "intercalate '','' (map ?mt (p # ps)) @ ''}'' @ rest
               = json_quote k @ (CHR '':'' # (jtext v @ (CHR ''}'' # rest)))"
      using Nil p by simp
    show ?thesis unfolding tx m
      apply (subst parse_members.simps)
      apply (subst key)
      apply (subst q)
      using pv[OF d] Nil p
      by (simp add: parse_chars_quoted skip_ws_punct del: parse_members.simps parse_value.simps)
  next
    case (Cons p' ps')
    let ?tail = "intercalate '','' (map ?mt ps) @ ''}'' @ rest"
    have d: "delim (CHR '','' # ?tail)" by (simp add: delim_def)
    have tx: "intercalate '','' (map ?mt (p # ps)) @ ''}'' @ rest
               = json_quote k @ (CHR '':'' # (jtext v @ (CHR '','' # ?tail)))"
      using Cons p by simp
    have ih: "parse_members m' ?tail = Some (ps, rest)"
    proof (rule Cons.IH)
      show "\<forall>p\<in>set ps. json_data (snd p) \<and>
             (\<forall>n rest. jsize (snd p) < n \<longrightarrow> delim rest \<longrightarrow>
                 parse_value n (jtext (snd p) @ rest) = Some (snd p, rest))"
        using Cons.prems(1) by simp
      show "ps \<noteq> []" using Cons by simp
      show "sum_list (map (\<lambda>p. Suc (jsize (snd p))) ps) < m'" using Cons.prems(3) m by simp
    qed
    show ?thesis unfolding tx m
      apply (subst parse_members.simps)
      apply (subst key)
      apply (subst q)
      using pv[OF d] ih p
      by (simp add: parse_chars_quoted skip_ws_punct del: parse_members.simps parse_value.simps)
  qed
qed

lemma parse_value_literal:
  "parse_value (Suc n) (''null'' @ rest) = Some (JNull, rest)"
  "parse_value (Suc n) (''true'' @ rest) = Some (JBool True, rest)"
  "parse_value (Suc n) (''false'' @ rest) = Some (JBool False, rest)"
  by (simp_all add: skip_ws_def json_ws_def dquote_def)

lemma parse_value_JStr: "parse_value (Suc n) (json_quote s @ rest) = Some (JStr s, rest)"
  by (simp add: json_quote_def skip_ws_punct parse_chars_quoted)

lemma parse_value_JNum:
  assumes "delim rest"
  shows "parse_value (Suc n) (show_int i @ rest) = Some (JNum i, rest)"
proof -
  obtain c cs where s: "show_int i = c # cs" and c: "is_digit c \<or> c = CHR ''-''"
    using show_int_head by blast
  have ws: "skip_ws (c # cs @ rest) = c # cs @ rest"
    using c by (auto simp: skip_ws_def json_ws_def is_digit_def)
  have ne: "c \<noteq> dquote" "c \<noteq> CHR ''[''" "c \<noteq> CHR ''{''" "c \<noteq> CHR ''t''" "c \<noteq> CHR ''f''" "c \<noteq> CHR ''n''"
    using c by (auto simp: is_digit_def dquote_def)
  have lit: "take 4 (c # cs @ rest) \<noteq> ''true''" "take 5 (c # cs @ rest) \<noteq> ''false''"
            "take 4 (c # cs @ rest) \<noteq> ''null''"
    using ne by (auto simp: take_Cons')
  have p: "parse_number (c # cs @ rest) = Some (i, rest)"
    using parse_number_show_int[OF assms, of i] s by simp
  show ?thesis unfolding s
    apply (subst append_Cons)
    apply (subst parse_value.simps)
    apply (subst ws)
    using ne lit p by (simp del: parse_value.simps take_Suc_Cons)
qed

lemma parse_value_JArr:
  assumes "\<forall>x\<in>set xs. json_data x \<and>
             (\<forall>n rest. jsize x < n \<longrightarrow> delim rest \<longrightarrow> parse_value n (jtext x @ rest) = Some (x, rest))"
      and "jsize (JArr xs) < n"
  shows "parse_value n (jtext (JArr xs) @ rest) = Some (JArr xs, rest)"
proof -
  obtain n' where n: "n = Suc n'" using assms(2) by (cases n) auto
  have jd: "list_all json_data xs" using assms(1) by (simp add: list_all_iff)
  show ?thesis
  proof (cases xs)
    case Nil
    then show ?thesis unfolding n by (simp add: jtext_JArr skip_ws_def json_ws_def dquote_def)
  next
    case (Cons y ys)
    let ?cs = "intercalate '','' (map jtext xs) @ '']'' @ rest"
    have tx: "jtext (JArr xs) @ rest = CHR ''['' # ?cs" by (simp add: jtext_JArr[OF jd])
    have "\<exists>t. ?cs = jtext y @ t"
      using Cons by (cases ys) auto
    then obtain t where t: "?cs = jtext y @ t" by blast
    have "json_data y" using assms(1) Cons by simp
    then have sv: "starts_value ?cs" unfolding t by (rule starts_value_jtext)
    then obtain d ds where d: "?cs = d # ds" "d \<noteq> CHR '']''"
      by (cases ?cs) (auto simp: starts_value_def)
    have ws: "skip_ws ?cs = d # ds" using skip_ws_starts_value[OF sv] d by simp
    have pe: "parse_elements n' ?cs = Some (xs, rest)"
    proof (rule parse_elements_texts)
      show "\<forall>x\<in>set xs. json_data x \<and>
             (\<forall>n rest. jsize x < n \<longrightarrow> delim rest \<longrightarrow> parse_value n (jtext x @ rest) = Some (x, rest))"
        by (rule assms(1))
      show "xs \<noteq> []" using Cons by simp
      show "sum_list (map (\<lambda>x. Suc (jsize x)) xs) < n'" using assms(2) n by simp
    qed
    have ob: "skip_ws (CHR ''['' # ?cs) = CHR ''['' # ?cs" by (simp add: skip_ws_def json_ws_def)
    show ?thesis unfolding tx n
      apply (subst parse_value.simps)
      apply (subst ob)
      using ws pe d(2) by (simp add: dquote_def del: parse_value.simps parse_elements.simps)
  qed
qed

lemma parse_value_JObj:
  assumes "\<forall>p\<in>set ps. json_data (snd p) \<and>
             (\<forall>n rest. jsize (snd p) < n \<longrightarrow> delim rest \<longrightarrow>
                 parse_value n (jtext (snd p) @ rest) = Some (snd p, rest))"
      and "distinct (map fst ps)"
      and "jsize (JObj ps) < n"
  shows "parse_value n (jtext (JObj ps) @ rest) = Some (JObj ps, rest)"
proof -
  obtain n' where n: "n = Suc n'" using assms(3) by (cases n) auto
  have jd: "list_all (\<lambda>p. json_data (snd p)) ps" using assms(1) by (simp add: list_all_iff)
  let ?mt = "\<lambda>p. json_quote (fst p) @ '':'' @ jtext (snd p)"
  show ?thesis
  proof (cases ps)
    case Nil
    then show ?thesis unfolding n
      by (simp add: jtext_JObj skip_ws_def json_ws_def dquote_def Map_of_entries_def)
  next
    case (Cons q qs)
    let ?cs = "intercalate '','' (map ?mt ps) @ ''}'' @ rest"
    have tx: "jtext (JObj ps) @ rest = CHR ''{'' # ?cs" by (simp add: jtext_JObj[OF jd])
    have "\<exists>t. ?cs = dquote # t"
      using Cons by (cases qs) (auto simp: json_quote_def)
    then obtain t where t: "?cs = dquote # t" by blast
    have ws: "skip_ws ?cs = dquote # t" unfolding t by (rule skip_ws_punct)
    have dq: "dquote \<noteq> CHR ''}''" by (simp add: dquote_def)
    have pm: "parse_members n' ?cs = Some (ps, rest)"
    proof (rule parse_members_texts)
      show "\<forall>p\<in>set ps. json_data (snd p) \<and>
             (\<forall>n rest. jsize (snd p) < n \<longrightarrow> delim rest \<longrightarrow>
                 parse_value n (jtext (snd p) @ rest) = Some (snd p, rest))"
        by (rule assms(1))
      show "ps \<noteq> []" using Cons by simp
      show "sum_list (map (\<lambda>p. Suc (jsize (snd p))) ps) < n'" using assms(3) n by simp
    qed
    have ob: "skip_ws (CHR ''{'' # ?cs) = CHR ''{'' # ?cs" by (simp add: skip_ws_def json_ws_def)
    show ?thesis unfolding tx n
      apply (subst parse_value.simps)
      apply (subst ob)
      using ws pm dq Map_of_entries_distinct[OF assms(2)]
      by (simp add: dquote_def del: parse_value.simps parse_members.simps)
  qed
qed

lemma parse_value_jtext:
  "json_data v \<Longrightarrow> jsize v < n \<Longrightarrow> delim rest \<Longrightarrow> parse_value n (jtext v @ rest) = Some (v, rest)"
proof (induction v arbitrary: n rest)
  case JUndefined
  then show ?case by simp
next
  case JNull
  then obtain n' where "n = Suc n'" by (cases n) auto
  then show ?case by (simp only: jtext_simps parse_value_literal)
next
  case (JBool b)
  then obtain n' where "n = Suc n'" by (cases n) auto
  then show ?case by (cases b) (simp_all only: jtext_simps parse_value_literal if_True if_False)
next
  case (JNum i)
  then obtain n' where "n = Suc n'" by (cases n) auto
  then show ?case using JNum.prems(3) by (simp only: jtext_simps parse_value_JNum)
next
  case (JBigInt i)
  then show ?case by simp
next
  case (JStr s)
  then obtain n' where "n = Suc n'" by (cases n) auto
  then show ?case by (simp only: jtext_simps parse_value_JStr)
next
  case (JDate ms isoStr tx)
  then show ?case by simp
next
  case (JArr xs)
  have "\<forall>x\<in>set xs. json_data x \<and>
             (\<forall>n rest. jsize x < n \<longrightarrow> delim rest \<longrightarrow> parse_value n (jtext x @ rest) = Some (x, rest))"
    using JArr.IH JArr.prems(1) by (simp add: list_all_iff)
  then show ?case using JArr.prems(2) by (rule parse_value_JArr)
next
  case (JObj ps)
  have a: "\<forall>p\<in>set ps. json_data (snd p) \<and>
             (\<forall>n rest. jsize (snd p) < n \<longrightarrow> delim rest \<longrightarrow>
                 parse_value n (jtext (snd p) @ rest) = Some (snd p, rest))"
  proof
    fix p assume p: "p \<in> set ps"
    obtain k w where kw: "p = (k, w)" by (cases p)
    have jd: "json_data w" using JObj.prems(1) p kw by (auto simp: list_all_iff)
    have "\<And>n rest. jsize w < n \<Longrightarrow> delim rest \<Longrightarrow> parse_value n (jtext w @ rest) = Some (w, rest)"
      using JObj.IH[of p w] p kw jd by simp
    then show "json_data (snd p) \<and>
             (\<forall>n rest. jsize (snd p) < n \<longrightarrow> delim rest \<longrightarrow>
                 parse_value n (jtext (snd p) @ rest) = Some (snd p, rest))"
      using jd kw by simp
  qed
  have d: "distinct (map fst ps)" using JObj.prems(1) by simp
  show ?case using a d JObj.prems(2) by (rule parse_value_JObj)
qed

lemma length_intercalate:
  "ts \<noteq> [] \<Longrightarrow> Suc (length (intercalate '','' ts)) = sum_list (map (\<lambda>t. Suc (length t)) ts)"
  by (induction "'',''" ts rule: intercalate.induct) simp_all

lemma jsize_le_length: "json_data v \<Longrightarrow> jsize v \<le> length (jtext v)"
proof (induction v)
  case (JArr xs)
  have jd: "list_all json_data xs" using JArr.prems by simp
  show ?case
  proof (cases "xs = []")
    case True
    then show ?thesis by (simp add: jtext_JArr)
  next
    case False
    have "sum_list (map (\<lambda>x. Suc (jsize x)) xs) \<le> sum_list (map (\<lambda>x. Suc (length (jtext x))) xs)"
      using JArr.IH jd by (intro sum_list_mono) (simp add: list_all_iff)
    also have "\<dots> = Suc (length (intercalate '','' (map jtext xs)))"
      using length_intercalate[of "map jtext xs"] False by (simp add: comp_def)
    finally show ?thesis by (simp add: jtext_JArr[OF jd])
  qed
next
  case (JObj ps)
  have jd: "list_all (\<lambda>p. json_data (snd p)) ps" using JObj.prems by simp
  let ?mt = "\<lambda>p. json_quote (fst p) @ '':'' @ jtext (snd p)"
  show ?case
  proof (cases "ps = []")
    case True
    then show ?thesis by (simp add: jtext_JObj)
  next
    case False
    have "\<And>p. p \<in> set ps \<Longrightarrow> Suc (jsize (snd p)) \<le> Suc (length (?mt p))"
    proof -
      fix p assume p: "p \<in> set ps"
      obtain k w where kw: "p = (k, w)" by (cases p)
      have "json_data w" using jd p kw by (auto simp: list_all_iff)
      then have "jsize w \<le> length (jtext w)" using JObj.IH[of p w] p kw by simp
      then show "Suc (jsize (snd p)) \<le> Suc (length (?mt p))" using kw by simp
    qed
    then have "sum_list (map (\<lambda>p. Suc (jsize (snd p))) ps) \<le> sum_list (map (\<lambda>p. Suc (length (?mt p))) ps)"
      by (intro sum_list_mono) simp
    also have "\<dots> = Suc (length (intercalate '','' (map ?mt ps)))"
      using length_intercalate[of "map ?mt ps"] False by (simp add: comp_def)
    finally show ?thesis by (simp add: jtext_JObj[OF jd])
  qed
qed simp_all

lemma JSON_parse_jtext: "json_data v \<Longrightarrow> JSON_parse (jtext v) = Some v"
proof -
  assume jd: "json_data v"
  have "jsize v < 2 * length (jtext v) + 2" using jsize_le_length[OF jd] by simp
  then have "parse_value (2 * length (jtext v) + 2) (jtext v @ []) = Some (v, [])"
    using jd by (intro parse_value_jtext) (simp_all add: delim_def)
  then show ?thesis by (simp add: JSON_parse_def skip_ws_def)
qed

lemma stringify_array_jtext:
  "list_all json_data xs \<Longrightarrow> stringify_array xs = Some (jtext (JArr xs))"
proof -
  assume jd: "list_all json_data xs"
  have "\<forall>x\<in>set xs. SerializeJSONProperty x = Text (jtext x)"
    using jd serialize_json_data by (auto simp: list_all_iff)
  then have a: "arr_items (map SerializeJSONProperty xs) = Some (map jtext xs)"
    by (rule arr_items_texts)
  show ?thesis by (simp add: stringify_array_def a jtext_JArr[OF jd])
qed

section \<open>Properties of the persisted selection\<close>

subsection \<open>Persisting and restoring\<close>

lemma Map_set_value_absent:
  "\<forall>p\<in>set m. \<not> same_value_zero (fst p) k \<Longrightarrow> Map_set_value k v m = m @ [(k, v)]"
  by (induction m) simp_all

lemma entry_field_pair: "entry_field (JArr [k, v]) 0 = k" "entry_field (JArr [k, v]) 1 = v"
  by (simp_all add: entry_field_def)

lemma selection_state_snoc:
  "selection_state (sel @ [(k, r)]) = selection_state sel @ [(JStr k, JObj r)]"
  by (simp add: selection_state_def)

lemma fold_Map_set_value_entries:
  assumes "distinct (map fst sel)"
  shows "fold (\<lambda>e. Map_set_value (entry_field e 0) (entry_field e 1))
           (map (\<lambda>(k, r). JArr [k, r]) (selection_state sel)) [] = selection_state sel"
  using assms
proof (induction sel rule: rev_induct)
  case Nil
  show ?case by (simp add: selection_state_def)
next
  case (snoc p sel)
  obtain k r where p: "p = (k, r)" by (cases p)
  have k: "k \<notin> set (map fst sel)" using snoc.prems p by simp
  have d: "distinct (map fst sel)" using snoc.prems by simp
  have ab: "\<forall>q\<in>set (selection_state sel). \<not> same_value_zero (fst q) (JStr k)"
    using k by (force simp: selection_state_def same_value_zero_def)
  have "fold (\<lambda>e. Map_set_value (entry_field e 0) (entry_field e 1))
           (map (\<lambda>(k, r). JArr [k, r]) (selection_state (sel @ [p]))) []
        = Map_set_value (JStr k) (JObj r) (selection_state sel)"
    unfolding p selection_state_snoc
    by (simp only: map_append fold_append comp_apply snoc.IH[OF d] list.map fold_simps
          prod.case entry_field_pair id_apply)
  also have "\<dots> = selection_state sel @ [(JStr k, JObj r)]"
    using ab by (rule Map_set_value_absent)
  finally show ?case unfolding p selection_state_snoc .
qed

lemma entries_is_object:
  "list_all is_object (map (\<lambda>(k, r). JArr [k, r]) m)"
  by (induction m) (auto simp: is_object_def)

lemma Map_from_iterable_entries:
  "distinct (map fst sel) \<Longrightarrow>
   Map_from_iterable (JArr (map (\<lambda>(k, r). JArr [k, r]) (selection_state sel)))
   = Some (selection_state sel)"
  by (simp add: Map_from_iterable_def entries_is_object fold_Map_set_value_entries del: One_nat_def)

lemma entries_json_data:
  "list_all (\<lambda>(k, r). json_data (JObj r)) sel \<Longrightarrow>
   list_all json_data (map (\<lambda>(k, r). JArr [k, r]) (selection_state sel))"
  by (induction sel) (auto simp: selection_state_def)

lemma jtext_JArr_nonempty: "list_all json_data xs \<Longrightarrow> jtext (JArr xs) \<noteq> []"
  by (simp add: jtext_JArr)

lemma persist_selection_json_data:
  assumes "list_all (\<lambda>(k, r). json_data (JObj r)) sel"
  shows "persist_selection True sliceId (selection_state sel) ls
         = ls(storage_key sliceId \<mapsto> jtext (JArr (map (\<lambda>(k, r). JArr [k, r]) (selection_state sel))))"
  by (simp add: persist_selection_def stringify_array_jtext[OF entries_json_data[OF assms]])

lemma persist_selection_empty:
  "persist_selection True sliceId [] ls = ls(storage_key sliceId \<mapsto> ''[]'')"
  by (simp add: persist_selection_def stringify_array_def)

lemma restore_selection_persisted:
  assumes "distinct (map fst sel)" and "list_all (\<lambda>(k, r). json_data (JObj r)) sel"
  shows "restore_selection JSON_parse True sliceId False
           (persist_selection True sliceId (selection_state sel) ls)
         = (True, Some (selection_state sel), persist_selection True sliceId (selection_state sel) ls)"
proof -
  let ?es = "map (\<lambda>(k, r). JArr [k, r]) (selection_state sel)"
  have jd: "json_data (JArr ?es)" using entries_json_data[OF assms(2)] by simp
  have ne: "jtext (JArr ?es) \<noteq> []" using entries_json_data[OF assms(2)] by (rule jtext_JArr_nonempty)
  show ?thesis
    unfolding persist_selection_json_data[OF assms(2)]
    using ne by (simp add: restore_selection_def JSON_parse_jtext[OF jd] Map_from_iterable_entries[OF assms(1)])
qed

lemma mount_persisted:
  assumes "distinct (map fst sel)" and "list_all (\<lambda>(k, r). json_data (JObj r)) sel"
  shows "mount JSON_parse True sliceId (persist_selection True sliceId (selection_state sel) ls)
         = (selection_state sel, persist_selection True sliceId (selection_state sel) ls)"
  unfolding mount_def restore_selection_persisted[OF assms]
  by (simp add: persist_selection_empty persist_selection_json_data[OF assms(2)])

lemma mount_without_retention:
  "mount parse False sliceId ls = ([], ls(storage_key sliceId := None))"
  by (simp add: mount_def restore_selection_def persist_selection_def)

lemma persist_selection_date:
  "persist_selection True sliceId (selection_state ex_selection_date) ls
   = persist_selection True sliceId (selection_state ex_selection_date_reloaded) ls"
  by (simp add: persist_selection_def stringify_array_def selection_state_def
        ex_selection_date_def ex_selection_date_reloaded_def)

text \<open>
  Claim C6 (amended). A selection is a \<open>Map\<close> with string ids (each id once) and rows. If
  every row is JSON data (its property names pairwise distinct, its values \<open>null\<close>, booleans,
  integers, strings, arrays and plain objects of such), then with retention enabled the
  persist effect stores the text of \<open>JSON.stringify\<close> under the chart's key, it does not
  throw, and mounting the chart on that store restores exactly the same id-to-row mapping, in
  the same order, and leaves the store as the persist effect wrote it. With retention
  disabled, mounting the chart on any store, with any parser, gives the empty selection and
  removes the chart's key. Rows that are not JSON data are outside this statement; the
  counterexample after the theorem is a row with a \<open>Date\<close>.
\<close>

theorem selection_round_trip:
  assumes "distinct (map fst sel)" and "list_all (\<lambda>(k, r). json_data (JObj r)) sel"
  shows "mount JSON_parse True sliceId (persist_selection True sliceId (selection_state sel) ls)
           = (selection_state sel, persist_selection True sliceId (selection_state sel) ls)
         \<and> persist_selection True sliceId (selection_state sel) ls (storage_key sliceId)
           = stringify_array (map (\<lambda>(k, r). JArr [k, r]) (selection_state sel))
         \<and> stringify_array (map (\<lambda>(k, r). JArr [k, r]) (selection_state sel)) \<noteq> None
         \<and> mount parse False sliceId ls' = ([], ls'(storage_key sliceId := None))"
proof -
  have a: "stringify_array (map (\<lambda>(k, r). JArr [k, r]) (selection_state sel))
           = Some (jtext (JArr (map (\<lambda>(k, r). JArr [k, r]) (selection_state sel))))"
    using entries_json_data[OF assms(2)] by (rule stringify_array_jtext)
  show ?thesis
    using mount_persisted[OF assms, of sliceId ls] mount_without_retention[of parse sliceId ls'] a
    by (simp add: persist_selection_json_data[OF assms(2)])
qed

theorem selection_round_trip_witness:
  "distinct (map fst ex_selection)
   \<and> list_all (\<lambda>(k, r). json_data (JObj r)) ex_selection
   \<and> mount JSON_parse True (JNum 7)
        (persist_selection True (JNum 7) (selection_state ex_selection) Map.empty)
      = (selection_state ex_selection,
         persist_selection True (JNum 7) (selection_state ex_selection) Map.empty)
   \<and> mount JSON_parse False (JNum 7)
        (persist_selection True (JNum 7) (selection_state ex_selection) Map.empty)
      = ([], Map.empty)"
proof -
  have h: "distinct (map fst ex_selection) \<and> list_all (\<lambda>(k, r). json_data (JObj r)) ex_selection"
    by (simp add: ex_selection_def ex_row1_def ex_row2_def)
  have e: "(persist_selection True (JNum 7) (selection_state ex_selection) Map.empty)
             (storage_key (JNum 7) := None) = Map.empty"
    using h by (simp add: persist_selection_json_data)
  from selection_round_trip[where sel = ex_selection and sliceId = "JNum 7" and ls = Map.empty
      and parse = JSON_parse
      and ls' = "persist_selection True (JNum 7) (selection_state ex_selection) Map.empty"] h
  show ?thesis unfolding e by simp
qed

text \<open>
  The unamended claim has the round trip exact for every selection. A selected row with a
  \<open>Date\<close> in a temporal column is persisted with the date's ISO string, and after a reload the
  restored row holds that string in place of the \<open>Date\<close>.
\<close>

theorem selection_round_trip_date_counterexample:
  "fst (mount JSON_parse True (JNum 7)
          (persist_selection True (JNum 7) (selection_state ex_selection_date) Map.empty))
     = selection_state ex_selection_date_reloaded
   \<and> selection_state ex_selection_date_reloaded \<noteq> selection_state ex_selection_date"
proof -
  have h: "distinct (map fst ex_selection_date_reloaded)"
          "list_all (\<lambda>(k, r). json_data (JObj r)) ex_selection_date_reloaded"
    by (simp_all add: ex_selection_date_reloaded_def)
  have ne: "selection_state ex_selection_date_reloaded \<noteq> selection_state ex_selection_date"
    by (simp add: selection_state_def ex_selection_date_def ex_selection_date_reloaded_def)
  show ?thesis
    unfolding persist_selection_date mount_persisted[OF h]
    using ne by simp
qed

section \<open>Properties of the action-list coercion\<close>

subsection \<open>Coercing the action lists\<close>

lemma set_Set_add: "set (Set_add x s) = insert x (set s)"
  by (auto simp: Set_add_def list_ex_iff same_value_zero_def)

lemma set_fold_Set_add: "set (fold Set_add xs s) = set s \<union> set xs"
  by (induction xs arbitrary: s) (simp_all add: set_Set_add)

lemma set_Set_from_array: "set (Set_from_array xs) = set xs"
  by (simp add: Set_from_array_def set_fold_Set_add)

lemma JSON_parse_examples:
  "JSON_parse ''[1,2'' = None"
  "JSON_parse ''42'' = Some (JNum 42)"
  "JSON_parse ''[1, 2, 1]'' = Some (JArr [JNum 1, JNum 2, JNum 1])"
  by code_simp+

lemma Set_from_array_example: "Set_from_array [JNum 1, JNum 2, JNum 1] = [JNum 1, JNum 2]"
  by (simp add: Set_from_array_def Set_add_def same_value_zero_def is_object_def)

text \<open>
  Claim C9. For every behaviour \<open>parse\<close> of \<open>JSON.parse\<close> and every input of
  \<open>parseOrConvertToSet\<close>: a string on which the parser throws gives the empty set, the error
  being caught; a string that parses to a value that is not an array gives the empty set; a
  string that parses to an array gives the \<open>Set\<close> built from the array; an array gives the
  \<open>Set\<close> built from it; the \<open>Set\<close> built from an array has exactly the elements of the array;
  a \<open>Set\<close> is returned as it is; every other input gives the empty set. The function
  returns a set on every input.
\<close>

theorem parseOrConvertToSet_cases:
  "(parse s = None \<longrightarrow> parseOrConvertToSet parse (Value (JStr s)) = [])
   \<and> (parse s = Some v \<and> \<not> is_array v \<longrightarrow> parseOrConvertToSet parse (Value (JStr s)) = [])
   \<and> (parse s = Some (JArr xs) \<longrightarrow>
        parseOrConvertToSet parse (Value (JStr s)) = Set_from_array xs)
   \<and> parseOrConvertToSet parse (Value (JArr xs)) = Set_from_array xs
   \<and> set (Set_from_array xs) = set xs
   \<and> parseOrConvertToSet parse (SetObject els) = els
   \<and> (\<not> is_string w \<and> \<not> is_array w \<longrightarrow> parseOrConvertToSet parse (Value w) = [])"
proof -
  have a: "parse s = Some v \<and> \<not> is_array v \<longrightarrow> parseOrConvertToSet parse (Value (JStr s)) = []"
    by (cases v) (simp_all add: parseOrConvertToSet_def is_array_def)
  have b: "\<not> is_string w \<and> \<not> is_array w \<longrightarrow> parseOrConvertToSet parse (Value w) = []"
    by (cases w) (simp_all add: parseOrConvertToSet_def is_array_def is_string_def)
  show ?thesis using a b by (simp add: parseOrConvertToSet_def set_Set_from_array)
qed

theorem parseOrConvertToSet_cases_witness:
  "JSON_parse ''[1,2'' = None
   \<and> parseOrConvertToSet JSON_parse (Value (JStr ''[1,2'')) = []
   \<and> JSON_parse ''42'' = Some (JNum 42) \<and> \<not> is_array (JNum 42)
   \<and> parseOrConvertToSet JSON_parse (Value (JStr ''42'')) = []
   \<and> JSON_parse ''[1, 2, 1]'' = Some (JArr [JNum 1, JNum 2, JNum 1])
   \<and> parseOrConvertToSet JSON_parse (Value (JStr ''[1, 2, 1]'')) = [JNum 1, JNum 2]
   \<and> \<not> is_string (JNum 42)
   \<and> parseOrConvertToSet JSON_parse (Value (JNum 42)) = []"
proof -
  from parseOrConvertToSet_cases[where parse = JSON_parse and s = "''[1,2''"]
  have a: "parseOrConvertToSet JSON_parse (Value (JStr ''[1,2'')) = []"
    using JSON_parse_examples(1) by blast
  from parseOrConvertToSet_cases[where parse = JSON_parse and s = "''42''" and v = "JNum 42"
      and w = "JNum 42"]
  have b: "parseOrConvertToSet JSON_parse (Value (JStr ''42'')) = []"
          "parseOrConvertToSet JSON_parse (Value (JNum 42)) = []"
    using JSON_parse_examples(2) by (simp_all add: is_array_def is_string_def)
  from parseOrConvertToSet_cases[where parse = JSON_parse and s = "''[1, 2, 1]''"
      and xs = "[JNum 1, JNum 2, JNum 1]"]
  have c: "parseOrConvertToSet JSON_parse (Value (JStr ''[1, 2, 1]'')) = [JNum 1, JNum 2]"
    using JSON_parse_examples(3) Set_from_array_example by simp
  show ?thesis using a b c JSON_parse_examples by (simp add: is_array_def is_string_def)
qed

end
